theory Spec2Isabelle
  imports Complex_Main "HOL-Library.AList" "HOL-Library.Multiset"
begin

section \<open>JavaScript primitives\<close>

text \<open>
  JavaScript numbers are read as real numbers (no rounding error, no NaN, no infinities);
  where the source divides by a value that can be zero the quotient is written out.
  \<open>Math.round\<close> rounds half up, \<open>%\<close> is the truncated remainder, and a number is
  truthy when it is not zero. The one number that keeps its infinities is \<open>maxCars\<close>,
  the bound of the spawn loops of \<open>init\<close> and of the resize callback: \<open>lt v n\<close> is the
  comparison \<open>v < n\<close> of a finite number and such a bound.
\<close>

datatype number = Num real | PlusInfinity | MinusInfinity

definition lt :: "real \<Rightarrow> number \<Rightarrow> bool" where
  "lt v n = (case n of Num b \<Rightarrow> v < b | PlusInfinity \<Rightarrow> True | MinusInfinity \<Rightarrow> False)"

definition Math_round :: "real \<Rightarrow> int" where
  "Math_round v = \<lfloor>v + 1 / 2\<rfloor>"

definition js_rem :: "int \<Rightarrow> int \<Rightarrow> int" where
  "js_rem a b = (if 0 \<le> a then a mod \<bar>b\<bar> else - ((- a) mod \<bar>b\<bar>))"

text \<open>
  The environment: the successive results of \<open>Math.random()\<close> and of \<open>Date.now()\<close>.
  A read returns the head of the stream and leaves the rest. \<open>Math.random()\<close> returns a
  number in the half-open interval from 0 to 1, which is the type of the draws.
\<close>

typedef unit_interval = "{r :: real. 0 \<le> r \<and> r < 1}"
  by (rule exI [of _ 0]) simp

record world =
  rands :: "nat \<Rightarrow> unit_interval"
  times :: "nat \<Rightarrow> real"

definition Math_random :: "world \<Rightarrow> real \<times> world" where
  "Math_random W = (Rep_unit_interval (rands W 0), W\<lparr>rands := \<lambda>n. rands W (Suc n)\<rparr>)"

definition Date_now :: "world \<Rightarrow> real \<times> world" where
  "Date_now W = (times W 0, W\<lparr>times := \<lambda>n. times W (Suc n)\<rparr>)"

text \<open>
  The colour computations read the clock and nothing else of the environment; their
  results go to the canvas only. \<open>getColor\<close> reads the clock twice,
  \<open>getSegmentColor\<close> four times.
\<close>

definition getColor :: "world \<Rightarrow> world" where
  "getColor W =
     (let (globalTime, W1) = Date_now W;
          (lifetime, W2) = Date_now W1
      in W2)"

definition getSegmentColor :: "world \<Rightarrow> world" where
  "getSegmentColor W =
     (let (globalTime, W1) = Date_now W;
          (lifetime, W2) = Date_now W1;
          (currentTime, W3) = Date_now W2;
          (age, W4) = Date_now W3
      in W4)"

section \<open>Data model\<close>

text \<open>
  A cell key is the string \<open>Math.round(x) + ',' + Math.round(y)\<close>; the pair of the two
  integers stands for it. The three cell tables and \<open>deadCarIds\<close> are JavaScript objects:
  association lists in insertion order, read with \<open>map_of\<close>, written with
  \<open>AList.update\<close> and \<open>AList.delete\<close>.
\<close>

type_synonym key = "int \<times> int"

datatype strategy = WallFollower | Wanderer | Explorer | Spiral

datatype turn = TurnRight | TurnLeft

record car =
  car_x :: real
  car_y :: real
  car_hexSize :: real
  car_canvasWidth :: real
  car_canvasHeight :: real
  stuck :: bool
  car_id :: nat
  birthTime :: real
  hueOffset :: real
  distanceTraveled :: real
  cellsVisited :: int
  car_strategy :: strategy
  preferredTurnDirection :: turn
  previousDirection :: "int option"
  currentDirection :: int

record line =
  lx1 :: real
  ly1 :: real
  lx2 :: real
  ly2 :: real
  carId :: nat
  line_hueOffset :: real
  line_birthTime :: real
  timestamp :: real
  segmentIndex :: nat

record move =
  mv_x :: real
  mv_y :: real
  direction :: int

record intended = move +
  oldDirection :: int
  is180 :: bool

record fitness =
  totalLifetime :: real
  count_fit :: int
  totalDistance :: real
  totalCells :: int

record board =
  hexSize :: real
  canvasWidth :: real
  canvasHeight :: real
  occupiedCells :: "(key \<times> int) list"
  cellTimestamps :: "(key \<times> real) list"
  cellOwners :: "(key \<times> nat) list"
  allLines :: "line list"
  cars :: "car list"
  maxCars :: number
  nextCarId :: nat
  deadCarIds :: "(nat \<times> real) list"
  strategyFitness :: "strategy \<Rightarrow> fitness"
  mutationRate :: real
  infiniteLifetime :: bool
  traceLifetime :: real
  fadeDuration :: real
  lineWidth :: real
  stepDelay :: real
  lastStepTime :: real
  spawnDelay :: real
  lastSpawnTime :: real
  cleanupFrameCounter :: nat
  carPaths :: "nat list"

definition getHexKey :: "real \<Rightarrow> real \<Rightarrow> key" where
  "getHexKey px py = (Math_round px, Math_round py)"

text \<open>The test \<open>if (occupiedCells[key])\<close>: the key is present with a truthy count.\<close>

definition occupied :: "(key \<times> int) list \<Rightarrow> key \<Rightarrow> bool" where
  "occupied cells k = (case map_of cells k of None \<Rightarrow> False | Some v \<Rightarrow> v \<noteq> 0)"

section \<open>Configuration: the constructor's field initialisation\<close>

text \<open>
  The options object: a field is \<open>None\<close> when the option is \<open>undefined\<close>.
  \<open>hexSize\<close> and \<open>maxCars\<close> take their default through \<open>||\<close>, so a zero is replaced
  too; the others are compared with \<open>undefined\<close>. \<open>carPaths\<close>, which \<open>executeMove\<close>
  creates, is the list of its keys, empty at first.
\<close>

record options =
  opt_hexSize :: "real option"
  opt_maxCars :: "number option"
  opt_mutationRate :: "real option"
  opt_infiniteLifetime :: "bool option"
  opt_traceLifetime :: "real option"
  opt_fadeDuration :: "real option"
  opt_lineWidth :: "real option"
  opt_stepDelay :: "real option"
  opt_spawnDelay :: "real option"

definition or_default :: "real option \<Rightarrow> real \<Rightarrow> real" where
  "or_default v d = (case v of None \<Rightarrow> d | Some r \<Rightarrow> if r = 0 then d else r)"

definition or_default_number :: "number option \<Rightarrow> real \<Rightarrow> number" where
  "or_default_number v d =
     (case v of None \<Rightarrow> Num d | Some (Num r) \<Rightarrow> if r = 0 then Num d else Num r | Some n \<Rightarrow> n)"

definition zero_fitness :: fitness where
  "zero_fitness = \<lparr>totalLifetime = 0, count_fit = 0, totalDistance = 0, totalCells = 0\<rparr>"

definition CircuitBoard :: "options \<Rightarrow> board" where
  "CircuitBoard opts =
     \<lparr>hexSize = or_default (opt_hexSize opts) 100,
      canvasWidth = 0,
      canvasHeight = 0,
      occupiedCells = [],
      cellTimestamps = [],
      cellOwners = [],
      allLines = [],
      cars = [],
      maxCars = or_default_number (opt_maxCars opts) 2,
      nextCarId = 0,
      deadCarIds = [],
      strategyFitness = (\<lambda>_. zero_fitness),
      mutationRate = (case opt_mutationRate opts of None \<Rightarrow> 1 / 10 | Some v \<Rightarrow> v),
      infiniteLifetime = (case opt_infiniteLifetime opts of None \<Rightarrow> False | Some v \<Rightarrow> v),
      traceLifetime = (case opt_traceLifetime opts of None \<Rightarrow> 2 | Some v \<Rightarrow> v),
      fadeDuration = (case opt_fadeDuration opts of None \<Rightarrow> 1 | Some v \<Rightarrow> v),
      lineWidth = (case opt_lineWidth opts of None \<Rightarrow> 10 | Some v \<Rightarrow> v),
      stepDelay = (case opt_stepDelay opts of None \<Rightarrow> 10 | Some v \<Rightarrow> v),
      lastStepTime = 0,
      spawnDelay = (case opt_spawnDelay opts of None \<Rightarrow> 100 | Some v \<Rightarrow> v),
      lastSpawnTime = 0,
      cleanupFrameCounter = 0,
      carPaths = []\<rparr>"

text \<open>\<open>setup\<close>: the canvas is the window plus a margin of 300 on each side.\<close>

definition setup_canvas :: "real \<Rightarrow> real \<Rightarrow> board \<Rightarrow> board" where
  "setup_canvas innerWidth innerHeight s =
     s\<lparr>canvasWidth := innerWidth + 300 * 2, canvasHeight := innerHeight + 300 * 2\<rparr>"

section \<open>Trace brightness\<close>

text \<open>
  The darkness factor that \<open>draw\<close> computes for the segments of one car.
  \<open>aliveCarIds\<close> holds the ids of the cars in \<open>cars\<close>. When \<open>fadeDuration\<close> is zero
  the quotient \<open>fadeStartTime / fadeDurationMs\<close> is \<open>+Infinity\<close> (\<open>fadeStartTime\<close>
  is positive in that branch), so \<open>Math.min\<close> returns 1.
\<close>

definition darknessFactor :: "board \<Rightarrow> real \<Rightarrow> nat list \<Rightarrow> nat \<Rightarrow> real" where
  "darknessFactor s currentTime aliveCarIds numCarId =
     (let isAlive = (numCarId \<in> set aliveCarIds) in
      if \<not> infiniteLifetime s \<and> \<not> isAlive then
        (case map_of (deadCarIds s) numCarId of
           None \<Rightarrow> 1
         | Some deathTime \<Rightarrow>
             let timeSinceDeath = currentTime - deathTime;
                 lifetimeMs = traceLifetime s * 1000
             in if timeSinceDeath \<le> lifetimeMs then 1
                else
                  let fadeStartTime = timeSinceDeath - lifetimeMs;
                      fadeDurationMs = fadeDuration s * 1000;
                      fadeProgress = (if fadeDurationMs = 0 then 1
                                      else min 1 (fadeStartTime / fadeDurationMs))
                  in 1 - fadeProgress)
      else 1)"

section \<open>Movement strategies\<close>

text \<open>
  The priority list of \<open>calculateMove\<close>. The wanderer draws two numbers, the explorer
  shuffles \<open>[0..5]\<close> shifted by the heading with one draw per position from the last
  down to the second; the other two strategies draw nothing.
\<close>

fun shuffle :: "world \<Rightarrow> nat \<Rightarrow> int list \<Rightarrow> int list \<times> world" where
  "shuffle W 0 priorities = (priorities, W)"
| "shuffle W (Suc i') priorities =
     (let i = Suc i';
          (r, W') = Math_random W;
          j = nat \<lfloor>r * (real i + 1)\<rfloor>;
          temp = priorities ! i
      in shuffle W' i' (priorities[i := priorities ! j, j := temp]))"

definition priorities_of :: "world \<Rightarrow> car \<Rightarrow> int list \<times> world" where
  "priorities_of W c =
     (let straightAhead = currentDirection c in
      case car_strategy c of
        Wanderer \<Rightarrow>
          (let (r1, W1) = Math_random W;
               (r2, W2) = Math_random W1
           in ([straightAhead,
                js_rem (straightAhead + (if r1 < 1 / 2 then 1 else 5)) 6,
                js_rem (straightAhead + (if r2 < 1 / 2 then 2 else 4)) 6,
                js_rem (straightAhead + 3) 6,
                js_rem (straightAhead + 1) 6,
                js_rem (straightAhead + 5) 6], W2))
      | Spiral \<Rightarrow>
          (let turnDir = (if preferredTurnDirection c = TurnRight then 1 else 5)
           in ([js_rem (straightAhead + turnDir) 6,
                js_rem (straightAhead + turnDir * 2) 6,
                straightAhead,
                js_rem (straightAhead + 3) 6,
                js_rem (straightAhead + (if turnDir = 1 then 5 else 1)) 6,
                js_rem (straightAhead + (if turnDir = 1 then 4 else 2)) 6], W))
      | Explorer \<Rightarrow>
          shuffle W 5 (map (\<lambda>i. js_rem (straightAhead + i) 6) [0, 1, 2, 3, 4, 5])
      | WallFollower \<Rightarrow>
          (if preferredTurnDirection c = TurnRight then
             ([js_rem (straightAhead + 1) 6,
               straightAhead,
               js_rem (straightAhead + 2) 6,
               js_rem (straightAhead + 3) 6,
               js_rem (straightAhead + 4) 6,
               js_rem (straightAhead + 5) 6], W)
           else
             ([js_rem (straightAhead + 5) 6,
               straightAhead,
               js_rem (straightAhead + 4) 6,
               js_rem (straightAhead + 3) 6,
               js_rem (straightAhead + 2) 6,
               js_rem (straightAhead + 1) 6], W)))"

section \<open>Move legality\<close>

text \<open>
  The six steps of the hexagonal grid, East first, as \<open>(dx, dy)\<close>. The row height is
  \<open>hexSize * 0.866\<close>.
\<close>

definition hexDirections :: "real \<Rightarrow> (real \<times> real) list" where
  "hexDirections hs =
     (let rowHeight = hs * (866 / 1000) in
      [(hs, 0), (hs / 2, rowHeight), (- hs / 2, rowHeight),
       (- hs, 0), (- hs / 2, - rowHeight), (hs / 2, - rowHeight)])"

text \<open>
  The nearest grid point, as \<open>tryDirection\<close>, \<open>draw\<close> and \<open>executeMove\<close> each compute
  it: the row from \<open>y\<close>, the column from \<open>x\<close> less the offset of odd rows. The grid
  size is not zero (the constructor replaces a zero by 100).
\<close>

definition snap :: "real \<Rightarrow> real \<Rightarrow> real \<Rightarrow> real \<times> real" where
  "snap hs px py =
     (let rowHeight = hs * (866 / 1000);
          row = Math_round (py / rowHeight);
          xOffset = (if js_rem row 2 = 0 then 0 else hs / 2);
          col = Math_round ((px - xOffset) / hs)
      in (real_of_int col * hs + xOffset, real_of_int row * rowHeight))"

definition linesIntersect ::
  "real \<Rightarrow> real \<Rightarrow> real \<Rightarrow> real \<Rightarrow> real \<Rightarrow> real \<Rightarrow> real \<Rightarrow> real \<Rightarrow> real \<Rightarrow> bool" where
  "linesIntersect hs x1 y1 x2 y2 x3 y3 x4 y4 =
     (let threshold = hs * (15 / 100) in
      if (\<bar>x1 - x3\<bar> < threshold \<and> \<bar>y1 - y3\<bar> < threshold) \<or>
         (\<bar>x1 - x4\<bar> < threshold \<and> \<bar>y1 - y4\<bar> < threshold) \<or>
         (\<bar>x2 - x3\<bar> < threshold \<and> \<bar>y2 - y3\<bar> < threshold) \<or>
         (\<bar>x2 - x4\<bar> < threshold \<and> \<bar>y2 - y4\<bar> < threshold)
      then False
      else
        let denom = ((y4 - y3) * (x2 - x1)) - ((x4 - x3) * (y2 - y1)) in
        if \<bar>denom\<bar> < 1 / 10000 then False
        else
          let ua = (((x4 - x3) * (y1 - y3)) - ((y4 - y3) * (x1 - x3))) / denom;
              ub = (((x2 - x1) * (y1 - y3)) - ((y2 - y1) * (x1 - x3))) / denom
          in ua > 5 / 100 \<and> ua < 95 / 100 \<and> ub > 5 / 100 \<and> ub < 95 / 100)"

text \<open>
  One pass of the loop over the interior points of the step (\<open>step\<close> is 1, then 2, of
  \<open>numSteps = 3\<close>): true when the pass returns \<open>null\<close>.
\<close>

definition path_blocked :: "car \<Rightarrow> real \<Rightarrow> real \<Rightarrow> (key \<times> int) list \<Rightarrow> nat \<Rightarrow> bool" where
  "path_blocked c dx dy cells step =
     (let ratio = real step / 3;
          checkX = car_x c + dx * ratio;
          checkY = car_y c + dy * ratio;
          (gridX, gridY) = snap (car_hexSize c) checkX checkY;
          distance = sqrt ((checkX - gridX)\<^sup>2 + (checkY - gridY)\<^sup>2)
      in distance < car_hexSize c * (6 / 10) \<and>
         (let checkKey = getHexKey gridX gridY
          in occupied cells checkKey \<and> checkKey \<noteq> getHexKey (car_x c) (car_y c)))"

datatype error = TypeError

text \<open>
  \<open>tryDirection\<close>: \<open>Inr None\<close> is \<open>null\<close>. An index outside \<open>hexDirections\<close> reads
  \<open>undefined\<close>, and \<open>dir.dx\<close> throws.
\<close>

definition tryDirection ::
  "car \<Rightarrow> int \<Rightarrow> (key \<times> int) list \<Rightarrow> real \<Rightarrow> real \<Rightarrow> line list \<Rightarrow> error + move option" where
  "tryDirection c dirIndex cells cw ch lines =
     (if dirIndex < 0 \<or> 6 \<le> dirIndex then Inl TypeError
      else
        let (dx, dy) = hexDirections (car_hexSize c) ! nat dirIndex;
            nextX = car_x c + dx;
            nextY = car_y c + dy
        in if nextX < 0 \<or> nextX \<ge> cw \<or> nextY < 0 \<or> nextY \<ge> ch then Inr None
           else if occupied cells (getHexKey nextX nextY) then Inr None
           else if list_ex (path_blocked c dx dy cells) [1..<3] then Inr None
           else
             let checkStart = nat (max 0 (int (length lines) - 100)) in
             if list_ex (\<lambda>l. linesIntersect (car_hexSize c) (car_x c) (car_y c) nextX nextY
                                 (lx1 l) (ly1 l) (lx2 l) (ly2 l))
                  (drop checkStart lines)
             then Inr None
             else Inr (Some \<lparr>mv_x = nextX, mv_y = nextY, direction = dirIndex\<rparr>))"

definition scoreMove :: "move \<Rightarrow> car \<Rightarrow> int" where
  "scoreMove mv c = 100"

text \<open>The loop of \<open>calculateMove\<close> over the priority list.\<close>

fun try_priorities :: "board \<Rightarrow> car \<Rightarrow> int list \<Rightarrow> error + intended option" where
  "try_priorities s c [] = Inr None"
| "try_priorities s c (dirIndex # rest) =
     (case tryDirection c dirIndex (occupiedCells s) (canvasWidth s) (canvasHeight s) (allLines s) of
        Inl e \<Rightarrow> Inl e
      | Inr None \<Rightarrow> try_priorities s c rest
      | Inr (Some mv) \<Rightarrow>
          if scoreMove mv c \<ge> 0 then
            (let turnAngle = js_rem (dirIndex - currentDirection c + 6) 6
             in Inr (Some \<lparr>mv_x = mv_x mv, mv_y = mv_y mv, direction = direction mv,
                           oldDirection = currentDirection c, is180 = (turnAngle = 3)\<rparr>))
          else try_priorities s c rest)"

definition calculateMove :: "world \<Rightarrow> board \<Rightarrow> car \<Rightarrow> (error + intended option) \<times> world" where
  "calculateMove W s c = (let (priorities, W') = priorities_of W c in (try_priorities s c priorities, W'))"

section \<open>Spawning\<close>

text \<open>
  The \<open>Car\<close> constructor with a strategy and an id given. It reads the clock for the
  birth time, draws the hue, computes the colour, and draws the turn preference and the
  heading, in that order. (The colour string and the fields \<open>phase\<close>, \<open>straightMoves\<close>,
  \<open>prevX\<close> and \<open>prevY\<close>, which nothing reads, are left out.)
\<close>

definition Car :: "world \<Rightarrow> real \<Rightarrow> real \<Rightarrow> real \<Rightarrow> real \<Rightarrow> real \<Rightarrow> strategy \<Rightarrow> nat \<Rightarrow> car \<times> world" where
  "Car W px py cw ch hs strat cid =
     (let (t, W1) = Date_now W;
          (r1, W2) = Math_random W1;
          (r2, W3) = Math_random (getColor W2);
          (r3, W4) = Math_random W3
      in (\<lparr>car_x = px, car_y = py, car_hexSize = hs, car_canvasWidth = cw,
           car_canvasHeight = ch, stuck = False, car_id = cid, birthTime = t,
           hueOffset = r1 * 360, distanceTraveled = 0, cellsVisited = 0,
           car_strategy = strat,
           preferredTurnDirection = (if r2 < 1 / 2 then TurnRight else TurnLeft),
           previousDirection = None,
           currentDirection = \<lfloor>r3 * 6\<rfloor>\<rparr>, W4))"

definition strategies :: "strategy list" where
  "strategies = [WallFollower, Wanderer, Explorer, Spiral]"

definition strategy_weight :: "fitness \<Rightarrow> real" where
  "strategy_weight f =
     (if count_fit f > 0 then
        (let avgLifetime = totalLifetime f / real_of_int (count_fit f);
             avgDistance = totalDistance f / real_of_int (count_fit f);
             avgCells = real_of_int (totalCells f) / real_of_int (count_fit f);
             combinedFitness = (avgCells * 2) + avgLifetime + (avgDistance / 100)
         in combinedFitness\<^sup>2)
      else 1)"

fun roulette :: "real \<Rightarrow> real \<Rightarrow> (strategy \<times> real) list \<Rightarrow> strategy option" where
  "roulette random cumulativeWeight [] = None"
| "roulette random cumulativeWeight ((strat, w) # rest) =
     (let cumulativeWeight' = cumulativeWeight + w
      in if random \<le> cumulativeWeight' then Some strat
         else roulette random cumulativeWeight' rest)"

definition uniform_strategy :: "world \<Rightarrow> strategy \<times> world" where
  "uniform_strategy W = (let (r, W') = Math_random W in (strategies ! nat \<lfloor>r * 4\<rfloor>, W'))"

definition selectStrategyByFitness :: "world \<Rightarrow> board \<Rightarrow> strategy \<times> world" where
  "selectStrategyByFitness W s =
     (let (r, W1) = Math_random W in
      if r < mutationRate s then uniform_strategy W1
      else
        let weights = map (\<lambda>strat. strategy_weight (strategyFitness s strat)) strategies;
            totalWeight = sum_list weights
        in if totalWeight = 0 then uniform_strategy W1
           else
             let (r', W2) = Math_random W1;
                 random = r' * totalWeight
             in (case roulette random 0 (zip strategies weights) of
                   Some strat \<Rightarrow> (strat, W2)
                 | None \<Rightarrow> (Spiral, W2)))"

text \<open>\<open>(occupiedCells[key] || 0) + 1\<close>\<close>

definition next_count :: "(key \<times> int) list \<Rightarrow> key \<Rightarrow> int" where
  "next_count cells k = (case map_of cells k of None \<Rightarrow> 0 | Some v \<Rightarrow> v) + 1"

text \<open>
  The body both searches of \<open>spawnCar\<close> run at a free grid point: take the next id,
  build the car, enter the key in the three cell tables, add the car.
\<close>

definition place_car :: "world \<Rightarrow> strategy \<Rightarrow> real \<Rightarrow> real \<Rightarrow> board \<Rightarrow> board \<times> world" where
  "place_car W strat gridX gridY s =
     (let k = getHexKey gridX gridY;
          cid = nextCarId s;
          (c, W1) = Car W gridX gridY (canvasWidth s) (canvasHeight s) (hexSize s) strat cid;
          (t, W2) = Date_now W1
      in (s\<lparr>nextCarId := cid + 1,
            occupiedCells := AList.update k (next_count (occupiedCells s) k) (occupiedCells s),
            cellTimestamps := AList.update k t (cellTimestamps s),
            cellOwners := AList.update k cid (cellOwners s),
            cars := cars s @ [c]\<rparr>, W2))"

definition grid_point :: "board \<Rightarrow> int \<Rightarrow> int \<Rightarrow> real \<times> real" where
  "grid_point s row col =
     (let rowHeight = hexSize s * (866 / 1000);
          xOffset = (if js_rem row 2 = 0 then 0 else hexSize s / 2)
      in (real_of_int col * hexSize s + xOffset, real_of_int row * rowHeight))"

text \<open>One random grid point: a row and a column, each from its own draw.\<close>

definition random_point :: "world \<Rightarrow> board \<Rightarrow> (real \<times> real) \<times> world" where
  "random_point W s =
     (let rowHeight = hexSize s * (866 / 1000);
          (r1, W1) = Math_random W;
          row = \<lfloor>r1 * (canvasHeight s / rowHeight)\<rfloor>;
          (r2, W2) = Math_random W1;
          col = \<lfloor>r2 * (canvasWidth s / hexSize s)\<rfloor>
      in (grid_point s row col, W2))"

text \<open>The random search: the argument counts the attempts that are left.\<close>

fun spawn_random :: "nat \<Rightarrow> world \<Rightarrow> strategy \<Rightarrow> board \<Rightarrow> board option \<times> world" where
  "spawn_random 0 W strat s = (None, W)"
| "spawn_random (Suc n) W strat s =
     (let ((gridX, gridY), W2) = random_point W s
      in if \<not> occupied (occupiedCells s) (getHexKey gridX gridY) then
           (let (s', W3) = place_car W2 strat gridX gridY s in (Some s', W3))
         else spawn_random n W2 strat s)"

text \<open>The exhaustive search: the grid points row by row, each row column by column.\<close>

definition scan_order :: "board \<Rightarrow> (int \<times> int) list" where
  "scan_order s =
     (let rowHeight = hexSize s * (866 / 1000);
          numRows = nat \<lceil>canvasHeight s / rowHeight\<rceil>;
          numCols = nat \<lceil>canvasWidth s / hexSize s\<rceil>
      in concat (map (\<lambda>row. map (\<lambda>col. (int row, int col)) [0..<numCols]) [0..<numRows]))"

fun spawn_scan :: "board \<Rightarrow> (int \<times> int) list \<Rightarrow> (real \<times> real) option" where
  "spawn_scan s [] = None"
| "spawn_scan s ((row, col) # rest) =
     (let (gridX, gridY) = grid_point s row col
      in if gridX \<ge> 0 \<and> gridX < canvasWidth s \<and> gridY \<ge> 0 \<and> gridY < canvasHeight s \<and>
            \<not> occupied (occupiedCells s) (getHexKey gridX gridY)
         then Some (gridX, gridY)
         else spawn_scan s rest)"

definition spawnCar :: "world \<Rightarrow> board \<Rightarrow> bool \<times> board \<times> world" where
  "spawnCar W s =
     (let (selectedStrategy, W1) = selectStrategyByFitness W s in
      case spawn_random 100 W1 selectedStrategy s of
        (Some s', W2) \<Rightarrow> (True, s', W2)
      | (None, W2) \<Rightarrow>
          (case spawn_scan s (scan_order s) of
             Some (gridX, gridY) \<Rightarrow>
               (let (s', W3) = place_car W2 selectedStrategy gridX gridY s in (True, s', W3))
           | None \<Rightarrow> (False, s, W2)))"

section \<open>Committing a move\<close>

text \<open>
  \<open>executeMove\<close> on a car and the board; the caller stores the car back. (The drawing
  calls are left out; of \<open>carPaths\<close> the keys are kept, since the first move of a car
  reads the clock for the start time of its path.)
\<close>

definition executeMove :: "world \<Rightarrow> car \<Rightarrow> intended \<Rightarrow> board \<Rightarrow> car \<times> board \<times> world" where
  "executeMove W c mv s =
     (let (snappedX, snappedY) = snap (hexSize s) (mv_x mv) (mv_y mv);
          k = getHexKey snappedX snappedY
      in if occupied (occupiedCells s) k then (c\<lparr>stuck := True\<rparr>, s, W)
         else
           let (t1, W1) = Date_now W;
               oldX = car_x c;
               oldY = car_y c;
               distance = sqrt ((snappedX - oldX)\<^sup>2 + (snappedY - oldY)\<^sup>2);
               turnAngle = js_rem (direction mv - currentDirection c + 6) 6;
               pref = (if preferredTurnDirection c = TurnRight
                       then (if turnAngle = 4 \<or> turnAngle = 5 then TurnLeft else TurnRight)
                       else (if turnAngle = 1 \<or> turnAngle = 2 then TurnRight else TurnLeft));
               c' = c\<lparr>car_x := snappedX, car_y := snappedY,
                      previousDirection := Some (currentDirection c),
                      distanceTraveled := distanceTraveled c + distance,
                      cellsVisited := cellsVisited c + 1,
                      preferredTurnDirection := pref,
                      currentDirection := direction mv\<rparr>;
               (t2, W2) = Date_now (getColor W1);
               newSegment = \<lparr>lx1 = oldX, ly1 = oldY, lx2 = snappedX, ly2 = snappedY,
                             carId = car_id c, line_hueOffset = hueOffset c,
                             line_birthTime = birthTime c, timestamp = t2,
                             segmentIndex = length (filter (\<lambda>l. carId l = car_id c) (allLines s))\<rparr>;
               s' = s\<lparr>occupiedCells := AList.update k (next_count (occupiedCells s) k) (occupiedCells s),
                      cellTimestamps := AList.update k t1 (cellTimestamps s),
                      cellOwners := AList.update k (car_id c) (cellOwners s),
                      allLines := allLines s @ [newSegment]\<rparr>
           in if car_id c \<in> set (carPaths s) then (c', s', W2)
              else
                let (startTime, W3) = Date_now W2
                in (c', s'\<lparr>carPaths := carPaths s @ [car_id c]\<rparr>, W3))"

section \<open>Removing traces\<close>

definition delete_keys :: "'k list \<Rightarrow> ('k \<times> 'v) list \<Rightarrow> ('k \<times> 'v) list" where
  "delete_keys ks al = fold AList.delete ks al"

definition removeCarTraces :: "nat \<Rightarrow> board \<Rightarrow> board" where
  "removeCarTraces cid s =
     (let keysToRemove = filter (\<lambda>k. map_of (cellOwners s) k = Some cid) (map fst (cellOwners s))
      in s\<lparr>occupiedCells := delete_keys keysToRemove (occupiedCells s),
           cellTimestamps := delete_keys keysToRemove (cellTimestamps s),
           cellOwners := delete_keys keysToRemove (cellOwners s),
           allLines := filter (\<lambda>l. carId l \<noteq> cid) (allLines s),
           deadCarIds := AList.delete cid (deadCarIds s),
           carPaths := removeAll cid (carPaths s)\<rparr>)"

text \<open>
  The test of \<open>clearFadedCells\<close> on one key of \<open>cellTimestamps\<close>: the owner is known,
  not alive, dead, and its whole fade interval is over.
\<close>

definition fully_faded :: "board \<Rightarrow> real \<Rightarrow> nat list \<Rightarrow> key \<Rightarrow> bool" where
  "fully_faded s currentTime aliveCarIds k =
     (let totalTimeBeforeCleanup = (traceLifetime s + fadeDuration s) * 1000 in
      case map_of (cellOwners s) k of
        None \<Rightarrow> False
      | Some ownerId \<Rightarrow>
          ownerId \<notin> set aliveCarIds \<and>
          (case map_of (deadCarIds s) ownerId of
             None \<Rightarrow> False
           | Some deathTime \<Rightarrow> currentTime - deathTime > totalTimeBeforeCleanup))"

text \<open>
  \<open>clearFadedCells\<close>. A line is kept when \<open>line.carId && !deadCarIdsToCleanup.has(line.carId)\<close>:
  the id is truthy, that is not zero, and not in the set.
\<close>

definition clearFadedCells :: "real \<Rightarrow> nat list \<Rightarrow> board \<Rightarrow> board" where
  "clearFadedCells currentTime aliveCarIds s =
     (if infiniteLifetime s then s
      else
        let s1 = s\<lparr>cleanupFrameCounter := cleanupFrameCounter s + 1\<rparr> in
        if cleanupFrameCounter s1 mod 10 \<noteq> 0 then s1
        else
          let keysToRemove = filter (fully_faded s currentTime aliveCarIds) (map fst (cellTimestamps s));
              deadCarIdsToCleanup = List.map_filter (map_of (cellOwners s)) keysToRemove;
              s2 = s1\<lparr>occupiedCells := delete_keys keysToRemove (occupiedCells s),
                      cellTimestamps := delete_keys keysToRemove (cellTimestamps s),
                      cellOwners := delete_keys keysToRemove (cellOwners s)\<rparr>
          in if length keysToRemove > 0 then
               s2\<lparr>allLines := filter (\<lambda>l. carId l \<noteq> 0 \<and> carId l \<notin> set deadCarIdsToCleanup) (allLines s),
                  deadCarIds := delete_keys deadCarIdsToCleanup (deadCarIds s),
                  carPaths := filter (\<lambda>cid. cid \<notin> set deadCarIdsToCleanup) (carPaths s)\<rparr>
             else s2)"

section \<open>The tick\<close>

text \<open>
  An element of \<open>intendedMoves\<close>. The car is named by its index in \<open>cars\<close>, so that
  every read of \<open>entry.car\<close> sees the car as it is now.
\<close>

record entry =
  carIndex :: nat
  entry_move :: "intended option"
  snappedDestKey :: "key option"

text \<open>Phase 1: the intended move of every car that is not stuck.\<close>

fun phase1 :: "world \<Rightarrow> board \<Rightarrow> nat \<Rightarrow> car list \<Rightarrow> error + (entry list \<times> world)" where
  "phase1 W s i [] = Inr ([], W)"
| "phase1 W s i (c # rest) =
     (if \<not> stuck c then
        (case calculateMove W s c of
           (Inl e, W1) \<Rightarrow> Inl e
         | (Inr mv, W1) \<Rightarrow>
             (case phase1 W1 s (Suc i) rest of
                Inl e \<Rightarrow> Inl e
              | Inr (entries, W2) \<Rightarrow>
                  Inr (\<lparr>carIndex = i, entry_move = mv, snappedDestKey = None\<rparr> # entries, W2)))
      else phase1 W s (Suc i) rest)"

text \<open>Phase 2: snap each destination and count the claimants of each key.\<close>

fun phase2 :: "board \<Rightarrow> (key \<rightharpoonup> int) \<Rightarrow> entry list \<Rightarrow> entry list \<times> (key \<rightharpoonup> int)" where
  "phase2 s destinationCounts [] = ([], destinationCounts)"
| "phase2 s destinationCounts (e # rest) =
     (case entry_move e of
        None \<Rightarrow>
          (let (entries, counts) = phase2 s destinationCounts rest in (e # entries, counts))
      | Some mv \<Rightarrow>
          (let (snappedX, snappedY) = snap (hexSize s) (mv_x mv) (mv_y mv);
               destKey = getHexKey snappedX snappedY;
               counts' = destinationCounts
                 (destKey \<mapsto> (case destinationCounts destKey of None \<Rightarrow> 0 | Some v \<Rightarrow> v) + 1);
               (entries, counts) = phase2 s counts' rest
           in (e\<lparr>snappedDestKey := Some destKey\<rparr> # entries, counts)))"

text \<open>\<open>this.executeMove(entry.car, entry.move)\<close> on the car of an entry.\<close>

definition execute_entry :: "world \<Rightarrow> board \<Rightarrow> nat \<Rightarrow> intended \<Rightarrow> board \<times> world" where
  "execute_entry W s idx mv =
     (let (c', s', W') = executeMove W (cars s ! idx) mv s
      in (s'\<lparr>cars := (cars s')[idx := c']\<rparr>, W'))"

text \<open>
  The branch of phase 3 for an entry without a move: the car is marked stuck and a
  zero-length segment, the dot, is recorded at its position.
\<close>

definition mark_stuck :: "world \<Rightarrow> nat \<Rightarrow> board \<Rightarrow> board \<times> world" where
  "mark_stuck W idx s =
     (let c = cars s ! idx;
          (t, W') = Date_now W;
          deathDot = \<lparr>lx1 = car_x c, ly1 = car_y c, lx2 = car_x c, ly2 = car_y c,
                      carId = car_id c, line_hueOffset = hueOffset c,
                      line_birthTime = birthTime c, timestamp = t,
                      segmentIndex = length (filter (\<lambda>l. carId l = car_id c) (allLines s))\<rparr>
      in (s\<lparr>cars := (cars s)[idx := c\<lparr>stuck := True\<rparr>],
            allLines := allLines s @ [deathDot]\<rparr>, W'))"

text \<open>
  Phase 3, one pass of the loop at index \<open>i\<close>. In a conflict the first entry that still
  has a move and the same key is executed (the list of those contains the entry itself),
  whether there are two of them or not, and the entry's own move is set to \<open>null\<close>.
  (The head-on test, whose result nothing uses, is left out.)
\<close>

definition phase3_step ::
  "(key \<rightharpoonup> int) \<Rightarrow> nat \<Rightarrow> entry list \<times> board \<times> world \<Rightarrow> entry list \<times> board \<times> world" where
  "phase3_step destinationCounts i st =
     (case st of (intendedMoves, s, W) \<Rightarrow>
      let e = intendedMoves ! i in
      case (entry_move e, snappedDestKey e) of
        (Some mv, Some k) \<Rightarrow>
          if destinationCounts k = Some 1 then
            (let (s', W') = execute_entry W s (carIndex e) mv in (intendedMoves, s', W'))
          else
            (let carsInConflict =
                   filter (\<lambda>e'. snappedDestKey e' = Some k \<and> entry_move e' \<noteq> None) intendedMoves
             in case carsInConflict of
                  [] \<Rightarrow> (intendedMoves, s, W)
                | first # _ \<Rightarrow>
                    (case entry_move first of
                       None \<Rightarrow> (intendedMoves, s, W)
                     | Some mv1 \<Rightarrow>
                         (let (s', W') = execute_entry W s (carIndex first) mv1
                          in (intendedMoves[i := e\<lparr>entry_move := None\<rparr>], s', W'))))
      | _ \<Rightarrow> (let (s', W') = mark_stuck W (carIndex e) s in (intendedMoves, s', W')))"

definition phase3 :: "(key \<rightharpoonup> int) \<Rightarrow> entry list \<Rightarrow> board \<Rightarrow> world \<Rightarrow> board \<times> world" where
  "phase3 destinationCounts intendedMoves s W =
     snd (fold (phase3_step destinationCounts) [0..<length intendedMoves] (intendedMoves, s, W))"

text \<open>
  The body of phase 4 for the stuck car at index \<open>i\<close>: its lifetime, distance and cells
  are added to the totals of its strategy and the count goes up by one; the car is
  entered in \<open>deadCarIds\<close> and spliced out of \<open>cars\<close>.
\<close>

definition record_fitness :: "real \<Rightarrow> car \<Rightarrow> fitness \<Rightarrow> fitness" where
  "record_fitness lifetime c f =
     f\<lparr>totalLifetime := totalLifetime f + lifetime,
       totalDistance := totalDistance f + distanceTraveled c,
       totalCells := totalCells f + cellsVisited c,
       count_fit := count_fit f + 1\<rparr>"

definition retire :: "world \<Rightarrow> nat \<Rightarrow> board \<Rightarrow> board \<times> world" where
  "retire W i s =
     (let c = cars s ! i;
          (t1, W1) = Date_now W;
          lifetime = (t1 - birthTime c) / 1000;
          (t2, W2) = Date_now W1
      in (s\<lparr>strategyFitness := (strategyFitness s)
               (car_strategy c := record_fitness lifetime c (strategyFitness s (car_strategy c))),
            deadCarIds := AList.update (car_id c) t2 (deadCarIds s),
            cars := take i (cars s) @ drop (Suc i) (cars s)\<rparr>, W2))"

text \<open>
  Phase 4: the loop runs from the last car down to the first; the argument is the index
  plus one.
\<close>

fun phase4 :: "nat \<Rightarrow> world \<Rightarrow> board \<Rightarrow> board \<times> world" where
  "phase4 0 W s = (s, W)"
| "phase4 (Suc i) W s =
     (if stuck (cars s ! i) then (let (s', W') = retire W i s in phase4 i W' s')
      else phase4 i W s)"

text \<open>
  The oldest dead car: \<open>for (carId in deadCarIds)\<close> visits the ids in ascending order
  and keeps the first one with the least death time (\<open>None\<close> is the initial \<open>Infinity\<close>).
\<close>

fun find_oldest :: "(nat \<times> real) list \<Rightarrow> (nat \<times> real) option \<Rightarrow> (nat \<times> real) option" where
  "find_oldest [] best = best"
| "find_oldest ((cid, t) # rest) best =
     (case best of
        None \<Rightarrow> find_oldest rest (Some (cid, t))
      | Some (oldestCarId, oldestDeathTime) \<Rightarrow>
          if t < oldestDeathTime then find_oldest rest (Some (cid, t))
          else find_oldest rest best)"

definition spawn_phase :: "real \<Rightarrow> world \<Rightarrow> board \<Rightarrow> board \<times> world" where
  "spawn_phase currentTime W s =
     (if lt (real (length (cars s))) (maxCars s) \<and> currentTime - lastSpawnTime s \<ge> spawnDelay s then
        (let (spawnSuccess, s1, W1) = spawnCar W s;
             (s2, W2) =
               (if infiniteLifetime s1 \<and> \<not> spawnSuccess \<and> length (deadCarIds s1) > 0 then
                  (case find_oldest (sort_key fst (deadCarIds s1)) None of
                     None \<Rightarrow> (s1, W1)
                   | Some (oldestCarId, oldestDeathTime) \<Rightarrow>
                       (let (retried, s', W') = spawnCar W1 (removeCarTraces oldestCarId s1)
                        in (s', W')))
                else (s1, W1))
         in (s2\<lparr>lastSpawnTime := currentTime\<rparr>, W2))
      else (s, W))"

text \<open>
  \<open>draw\<close>. Of the rendering, which reads the state and writes only the canvas, the
  clock reads are kept: one colour computation for each segment. Then the pruning and,
  when a step is due, the four phases and the spawn.
\<close>

definition render :: "line list \<Rightarrow> world \<Rightarrow> world" where
  "render segments W = fold (\<lambda>segment. getSegmentColor) segments W"

definition draw :: "world \<Rightarrow> board \<Rightarrow> error + (board \<times> world)" where
  "draw W s =
     (let (currentTime, W') = Date_now W;
          aliveCarIds = map car_id (cars s);
          W0 = render (allLines s) W';
          s1 = clearFadedCells currentTime aliveCarIds s
      in if currentTime - lastStepTime s1 \<ge> stepDelay s1 then
           (let s2 = s1\<lparr>lastStepTime := currentTime\<rparr> in
            case phase1 W0 s2 0 (cars s2) of
              Inl e \<Rightarrow> Inl e
            | Inr (intendedMoves, W1) \<Rightarrow>
                (let (entries, destinationCounts) = phase2 s2 Map.empty intendedMoves;
                     (s3, W3) = phase3 destinationCounts entries s2 W1;
                     (s4, W4) = phase4 (length (cars s3)) W3 s3
                 in Inr (spawn_phase currentTime W4 s4)))
         else Inr (s1, W0))"

text \<open>
  The loop \<open>for (var i = 0; i < this.maxCars; i++) this.spawnCar()\<close> of \<open>init\<close> and of
  the resize callback, from the index \<open>i\<close> on. It does not return when \<open>maxCars\<close> is
  \<open>Infinity\<close>: the result is then \<open>None\<close>.
\<close>

partial_function (option) spawn_loop :: "nat \<Rightarrow> world \<Rightarrow> board \<Rightarrow> (board \<times> world) option" where
  "spawn_loop i W s =
     (if lt (real i) (maxCars s) then
        (case spawnCar W s of (ok, s', W') \<Rightarrow> spawn_loop (i + 1) W' s')
      else Some (s, W))"

text \<open>
  \<open>init\<close>, which the constructor calls last: size the canvas, spawn \<open>maxCars\<close> cars at
  once when \<open>spawnDelay\<close> is zero, and draw the first frame. The callback of \<open>onResize\<close>
  empties the cell tables, the traces and the cars and spawns in the same way. Both are
  \<open>None\<close> when the loop does not return.
\<close>

definition init :: "world \<Rightarrow> real \<Rightarrow> real \<Rightarrow> board \<Rightarrow> (error + (board \<times> world)) option" where
  "init W innerWidth innerHeight s =
     (let s1 = setup_canvas innerWidth innerHeight s
      in case (if spawnDelay s1 = 0 then spawn_loop 0 W s1 else Some (s1, W)) of
           None \<Rightarrow> None
         | Some (s2, W2) \<Rightarrow> Some (draw W2 s2))"

definition onResize_callback :: "world \<Rightarrow> real \<Rightarrow> real \<Rightarrow> board \<Rightarrow> (board \<times> world) option" where
  "onResize_callback W newWidth newHeight s =
     (let s1 = s\<lparr>canvasWidth := newWidth, canvasHeight := newHeight,
                 cars := [], occupiedCells := [], cellTimestamps := [], cellOwners := [],
                 deadCarIds := [], allLines := [], lastSpawnTime := 0\<rparr>
      in if spawnDelay s1 = 0 then spawn_loop 0 W s1 else Some (s1, W))"

section \<open>Specification-level definitions\<close>

text \<open>
  The brightness of a dead car's trace as the specification words it, in seconds since
  death: full during the trace lifetime, then a linear ramp to zero over the fade
  duration, zero afterwards.
\<close>

definition brightness_spec :: "real \<Rightarrow> real \<Rightarrow> real \<Rightarrow> real" where
  "brightness_spec lifetime fade t =
     (if t \<le> lifetime then 1
      else if t < lifetime + fade then 1 - (t - lifetime) / fade
      else 0)"

text \<open>
  The world after some further reads of the random source and of the clock.
\<close>

inductive later :: "world \<Rightarrow> world \<Rightarrow> bool" where
  later_refl: "later W W"
| later_random: "later W W' \<Longrightarrow> later W (snd (Math_random W'))"
| later_now: "later W W' \<Longrightarrow> later W (snd (Date_now W'))"

text \<open>
  A property of the board and the world that the elementary steps of a tick keep:
  a read of the environment, the placing of a car on a free cell, the execution of a
  move in one of the six directions, the marking of a stuck car, the removal of a dead
  car's traces, the pruning, and the two time stamps. A tick invariant is also kept by
  the retirement of a stuck car.
\<close>

definition step_invariant :: "(board \<times> world \<Rightarrow> bool) \<Rightarrow> bool" where
  "step_invariant Q \<longleftrightarrow>
     (\<forall>s W. Q (s, W) \<longrightarrow> Q (s, snd (Math_random W)) \<and> Q (s, snd (Date_now W))) \<and>
     (\<forall>s W strat gx gy. Q (s, W) \<and> \<not> occupied (occupiedCells s) (getHexKey gx gy) \<longrightarrow>
        Q (place_car W strat gx gy s)) \<and>
     (\<forall>s W i mv. Q (s, W) \<and> i < length (cars s) \<and> 0 \<le> direction mv \<and> direction mv < 6 \<longrightarrow>
        Q (execute_entry W s i mv)) \<and>
     (\<forall>s W i. Q (s, W) \<and> i < length (cars s) \<longrightarrow> Q (mark_stuck W i s)) \<and>
     (\<forall>s W cid. Q (s, W) \<and> cid \<in> fst ` set (deadCarIds s) \<longrightarrow> Q (removeCarTraces cid s, W)) \<and>
     (\<forall>s W now. Q (s, W) \<longrightarrow> Q (clearFadedCells now (map car_id (cars s)) s, W)) \<and>
     (\<forall>s W t. Q (s, W) \<longrightarrow> Q (s\<lparr>lastStepTime := t\<rparr>, W) \<and> Q (s\<lparr>lastSpawnTime := t\<rparr>, W))"

definition tick_invariant :: "(board \<times> world \<Rightarrow> bool) \<Rightarrow> bool" where
  "tick_invariant Q \<longleftrightarrow>
     step_invariant Q \<and>
     (\<forall>s W i. Q (s, W) \<and> i < length (cars s) \<and> stuck (cars s ! i) \<longrightarrow> Q (retire W i s))"

text \<open>The spawn loop when it runs \<open>n\<close> times.\<close>

fun spawn_many :: "nat \<Rightarrow> world \<Rightarrow> board \<Rightarrow> board \<times> world" where
  "spawn_many 0 W s = (s, W)"
| "spawn_many (Suc n) W s = (let (ok, s', W') = spawnCar W s in spawn_many n W' s')"

text \<open>
  The entries of a tick name cars of the board, and their moves go in one of the six
  directions.
\<close>

definition entries_ok :: "entry list \<Rightarrow> board \<Rightarrow> bool" where
  "entries_ok es s \<longleftrightarrow>
     (\<forall>e \<in> set es. carIndex e < length (cars s) \<and>
        (\<forall>mv. entry_move e = Some mv \<longrightarrow> 0 \<le> direction mv \<and> direction mv < 6))"

text \<open>
  The three cell tables have the same keys, and every count is 1.
\<close>

definition cells_consistent :: "board \<Rightarrow> bool" where
  "cells_consistent s \<longleftrightarrow>
     fst ` set (cellTimestamps s) = fst ` set (occupiedCells s) \<and>
     fst ` set (cellOwners s) = fst ` set (occupiedCells s) \<and>
     (\<forall>p \<in> set (occupiedCells s). snd p = 1)"

text \<open>
  No double occupancy: besides the consistency of the tables, every key has one entry in
  \<open>cellOwners\<close>, every car in \<open>cars\<close> owns the cell it stands on, the ids of the
  cars differ, and the ids of cars and dead cars are below \<open>nextCarId\<close>, with no dead id
  among the cars.
\<close>

definition car_key :: "car \<Rightarrow> key" where
  "car_key c = getHexKey (car_x c) (car_y c)"

definition one_owner_per_cell :: "board \<Rightarrow> bool" where
  "one_owner_per_cell s \<longleftrightarrow>
     cells_consistent s \<and>
     distinct (map fst (cellOwners s)) \<and>
     (\<forall>c \<in> set (cars s). map_of (cellOwners s) (car_key c) = Some (car_id c)) \<and>
     distinct (map car_id (cars s)) \<and>
     (\<forall>c \<in> set (cars s). car_id c < nextCarId s) \<and>
     (\<forall>d \<in> fst ` set (deadCarIds s). d < nextCarId s \<and> d \<notin> car_id ` set (cars s))"

text \<open>The key that \<open>executeMove\<close> commits to: the key of the snapped destination.\<close>

definition dest_key :: "board \<Rightarrow> intended \<Rightarrow> key" where
  "dest_key s mv =
     getHexKey (fst (snap (hexSize s) (mv_x mv) (mv_y mv))) (snd (snap (hexSize s) (mv_x mv) (mv_y mv)))"

text \<open>Every car heads in one of the six directions.\<close>

definition dirs_ok :: "board \<Rightarrow> bool" where
  "dirs_ok s \<longleftrightarrow> (\<forall>c \<in> set (cars s). 0 \<le> currentDirection c \<and> currentDirection c < 6)"

text \<open>
  One aggregate is at most another, field by field. The statistics of the cars are fine
  when no distance and no cell count is negative, when no car is born after a later
  reading of the clock, and the clock never runs backwards.
\<close>

definition fitness_le :: "fitness \<Rightarrow> fitness \<Rightarrow> bool" where
  "fitness_le f g \<longleftrightarrow>
     totalLifetime f \<le> totalLifetime g \<and> totalDistance f \<le> totalDistance g \<and>
     totalCells f \<le> totalCells g \<and> count_fit f \<le> count_fit g"

definition stats_ok :: "board \<Rightarrow> world \<Rightarrow> bool" where
  "stats_ok s W \<longleftrightarrow>
     (\<forall>c \<in> set (cars s). 0 \<le> distanceTraveled c \<and> 0 \<le> cellsVisited c \<and>
        (\<forall>n. birthTime c \<le> times W n)) \<and>
     (\<forall>m n. m \<le> n \<longrightarrow> times W m \<le> times W n)"

text \<open>The stuck cars of one strategy among the first \<open>n\<close> cars: the cars phase 4 retires.\<close>

definition retiring :: "strategy \<Rightarrow> nat \<Rightarrow> board \<Rightarrow> car list" where
  "retiring strat n s = filter (\<lambda>c. stuck c \<and> car_strategy c = strat) (take n (cars s))"

text \<open>
  The grid as the specification describes it: rounding to the nearest integer (a half
  goes up), the canonical key of a point, the lattice point of a row and a column (rows
  are 0.866 grid sizes apart and odd rows are shifted by half a grid size), the step
  from a point in one of the six directions, and snapping, which takes the nearest row
  and then the nearest column given that row's offset. A cell is taken when the table
  has a count other than zero for its key. None of these definitions uses a definition
  of the program.
\<close>

definition nearest_int :: "real \<Rightarrow> int \<Rightarrow> bool" where
  "nearest_int v n \<longleftrightarrow> v - 1 / 2 < real_of_int n \<and> real_of_int n \<le> v + 1 / 2"

definition canonical_key :: "real \<times> real \<Rightarrow> key \<Rightarrow> bool" where
  "canonical_key p k \<longleftrightarrow> nearest_int (fst p) (fst k) \<and> nearest_int (snd p) (snd k)"

definition cell_taken :: "(key \<times> int) list \<Rightarrow> real \<times> real \<Rightarrow> bool" where
  "cell_taken cells p \<longleftrightarrow> (\<exists>k v. canonical_key p k \<and> map_of cells k = Some v \<and> v \<noteq> 0)"

definition same_cell :: "real \<times> real \<Rightarrow> real \<times> real \<Rightarrow> bool" where
  "same_cell p q \<longleftrightarrow> (\<exists>k. canonical_key p k \<and> canonical_key q k)"

definition row_height :: "real \<Rightarrow> real" where
  "row_height hs = hs * (866 / 1000)"

definition row_offset :: "real \<Rightarrow> int \<Rightarrow> real" where
  "row_offset hs row = (if even row then 0 else hs / 2)"

definition lattice_point :: "real \<Rightarrow> int \<Rightarrow> int \<Rightarrow> real \<times> real" where
  "lattice_point hs row col =
     (real_of_int col * hs + row_offset hs row, real_of_int row * row_height hs)"

definition snaps_to :: "real \<Rightarrow> real \<times> real \<Rightarrow> real \<times> real \<Rightarrow> bool" where
  "snaps_to hs p g \<longleftrightarrow>
     (\<exists>row col. nearest_int (snd p / row_height hs) row \<and>
        nearest_int ((fst p - row_offset hs row) / hs) col \<and>
        g = lattice_point hs row col)"

definition neighbor_of :: "real \<Rightarrow> real \<times> real \<Rightarrow> int \<Rightarrow> real \<times> real" where
  "neighbor_of hs p d =
     (if d = 0 then (fst p + hs, snd p)
      else if d = 1 then (fst p + hs / 2, snd p + row_height hs)
      else if d = 2 then (fst p - hs / 2, snd p + row_height hs)
      else if d = 3 then (fst p - hs, snd p)
      else if d = 4 then (fst p - hs / 2, snd p - row_height hs)
      else (fst p + hs / 2, snd p - row_height hs))"

text \<open>
  The searches of \<open>spawnCar\<close>. The \<open>k\<close>-th point of the random search is the lattice
  point whose row and column are the floors of the draws \<open>2k\<close> and \<open>2k + 1\<close> times the
  number of row heights in the canvas height and of grid sizes in the canvas width.
  The scan goes through the rows from the top and through each row from the left. A
  point is inside the canvas when both coordinates are, and a car is placed on a point
  when it is added last to the cars with the next id and owns the cell of the point.
\<close>

definition tried_point :: "world \<Rightarrow> board \<Rightarrow> nat \<Rightarrow> real \<times> real" where
  "tried_point W s k =
     lattice_point (hexSize s)
       \<lfloor>Rep_unit_interval (rands W (2 * k)) * (canvasHeight s / row_height (hexSize s))\<rfloor>
       \<lfloor>Rep_unit_interval (rands W (2 * k + 1)) * (canvasWidth s / hexSize s)\<rfloor>"

definition scan_points :: "board \<Rightarrow> (real \<times> real) list" where
  "scan_points s =
     concat (map (\<lambda>row. map (\<lambda>col. lattice_point (hexSize s) (int row) (int col))
                           [0..<nat \<lceil>canvasWidth s / hexSize s\<rceil>])
                 [0..<nat \<lceil>canvasHeight s / row_height (hexSize s)\<rceil>])"

definition in_canvas :: "board \<Rightarrow> real \<times> real \<Rightarrow> bool" where
  "in_canvas s p \<longleftrightarrow> fst p \<ge> 0 \<and> fst p < canvasWidth s \<and> snd p \<ge> 0 \<and> snd p < canvasHeight s"

definition placed :: "board \<Rightarrow> strategy \<Rightarrow> real \<times> real \<Rightarrow> board \<Rightarrow> bool" where
  "placed s strat p s' \<longleftrightarrow>
     (\<exists>c. cars s' = cars s @ [c] \<and> car_x c = fst p \<and> car_y c = snd p \<and>
        car_id c = nextCarId s \<and> car_strategy c = strat \<and> \<not> stuck c) \<and>
     nextCarId s' = nextCarId s + 1 \<and>
     cell_taken (occupiedCells s') p \<and>
     (\<exists>k. canonical_key p k \<and> map_of (cellOwners s') k = Some (nextCarId s)) \<and>
     allLines s' = allLines s \<and> deadCarIds s' = deadCarIds s"

text \<open>
  A draw \<open>r\<close> from the unit interval chooses the index \<open>\<lfloor>r * q\<rfloor>\<close>. The draws that choose
  the index \<open>k\<close> are those from \<open>k / q\<close> up to \<open>(k + 1) / q\<close>, so the share of the index
  is the length of that interval inside the unit interval. The choice is uniform among
  \<open>n\<close> indices when each of them has the share \<open>1 / n\<close>. The rows of a board are drawn
  uniformly when the choice is uniform among the rows of the scan, and the same for
  the columns.
\<close>

definition share :: "real \<Rightarrow> int \<Rightarrow> real" where
  "share q k = max 0 (min 1 ((real_of_int k + 1) / q) - real_of_int k / q)"

definition uniform_over :: "real \<Rightarrow> nat \<Rightarrow> bool" where
  "uniform_over q n \<longleftrightarrow> (\<forall>k \<in> {0..<n}. share q (int k) = 1 / real n)"

definition uniform_points :: "board \<Rightarrow> bool" where
  "uniform_points s \<longleftrightarrow>
     uniform_over (canvasHeight s / row_height (hexSize s))
       (nat \<lceil>canvasHeight s / row_height (hexSize s)\<rceil>) \<and>
     uniform_over (canvasWidth s / hexSize s) (nat \<lceil>canvasWidth s / hexSize s\<rceil>)"

text \<open>
  The grid points that the random search of \<open>spawnCar\<close> goes through when every one of
  them collides, and a free point, as the program computes them.
\<close>

fun random_points :: "nat \<Rightarrow> world \<Rightarrow> board \<Rightarrow> (real \<times> real) list" where
  "random_points 0 W s = []"
| "random_points (Suc n) W s = fst (random_point W s) # random_points n (snd (random_point W s)) s"

definition free_point :: "board \<Rightarrow> real \<times> real \<Rightarrow> bool" where
  "free_point s p \<longleftrightarrow> \<not> occupied (occupiedCells s) (getHexKey (fst p) (snd p))"

text \<open>
  Move legality. Two segments share an endpoint when an endpoint of one is within 15
  percent of the grid size of an endpoint of the other, in both coordinates. They meet
  when a point of the one, at a parameter strictly between 0.05 and 0.95, is a point of
  the other, at such a parameter too. They intersect, by the parametric test of two
  lines, when they share no endpoint, are not parallel (the cross product of their
  directions is not zero) and meet. They cross, which is the test with the tolerance
  of the program, when they share no endpoint, the cross product of their directions is
  at least 0.0001 in absolute value, and they meet.
\<close>

definition near :: "real \<Rightarrow> real \<Rightarrow> real \<Rightarrow> real \<Rightarrow> real \<Rightarrow> bool" where
  "near hs px py qx qy \<longleftrightarrow> \<bar>px - qx\<bar> < hs * (15 / 100) \<and> \<bar>py - qy\<bar> < hs * (15 / 100)"

definition shares_endpoint ::
  "real \<Rightarrow> real \<Rightarrow> real \<Rightarrow> real \<Rightarrow> real \<Rightarrow> real \<Rightarrow> real \<Rightarrow> real \<Rightarrow> real \<Rightarrow> bool" where
  "shares_endpoint hs x1 y1 x2 y2 x3 y3 x4 y4 \<longleftrightarrow>
     near hs x1 y1 x3 y3 \<or> near hs x1 y1 x4 y4 \<or> near hs x2 y2 x3 y3 \<or> near hs x2 y2 x4 y4"

definition segments_meet ::
  "real \<Rightarrow> real \<Rightarrow> real \<Rightarrow> real \<Rightarrow> real \<Rightarrow> real \<Rightarrow> real \<Rightarrow> real \<Rightarrow> bool" where
  "segments_meet x1 y1 x2 y2 x3 y3 x4 y4 \<longleftrightarrow>
     (\<exists>ua ub. 5 / 100 < ua \<and> ua < 95 / 100 \<and> 5 / 100 < ub \<and> ub < 95 / 100 \<and>
        x1 + ua * (x2 - x1) = x3 + ub * (x4 - x3) \<and>
        y1 + ua * (y2 - y1) = y3 + ub * (y4 - y3))"

definition segments_intersect ::
  "real \<Rightarrow> real \<Rightarrow> real \<Rightarrow> real \<Rightarrow> real \<Rightarrow> real \<Rightarrow> real \<Rightarrow> real \<Rightarrow> real \<Rightarrow> bool" where
  "segments_intersect hs x1 y1 x2 y2 x3 y3 x4 y4 \<longleftrightarrow>
     \<not> shares_endpoint hs x1 y1 x2 y2 x3 y3 x4 y4 \<and>
     (y4 - y3) * (x2 - x1) - (x4 - x3) * (y2 - y1) \<noteq> 0 \<and>
     segments_meet x1 y1 x2 y2 x3 y3 x4 y4"

definition segments_cross ::
  "real \<Rightarrow> real \<Rightarrow> real \<Rightarrow> real \<Rightarrow> real \<Rightarrow> real \<Rightarrow> real \<Rightarrow> real \<Rightarrow> real \<Rightarrow> bool" where
  "segments_cross hs x1 y1 x2 y2 x3 y3 x4 y4 \<longleftrightarrow>
     \<not> shares_endpoint hs x1 y1 x2 y2 x3 y3 x4 y4 \<and>
     \<bar>(y4 - y3) * (x2 - x1) - (x4 - x3) * (y2 - y1)\<bar> \<ge> 1 / 10000 \<and>
     segments_meet x1 y1 x2 y2 x3 y3 x4 y4"

text \<open>
  A point of the path is blocked when the lattice point it snaps to is closer than 60
  percent of the grid size and its cell is taken and is not the cell of the car. The
  recent segments are the last \<open>n\<close> of the list. A move is legal, for a given test of
  crossing, when the destination is inside the canvas, its cell is not taken, neither
  of the points at one third and two thirds of the step is blocked, and the step
  crosses none of the last 100 segments.
\<close>

definition sample_blocked :: "car \<Rightarrow> (key \<times> int) list \<Rightarrow> real \<times> real \<Rightarrow> bool" where
  "sample_blocked c cells q \<longleftrightarrow>
     (\<exists>g. snaps_to (car_hexSize c) q g \<and>
        sqrt ((fst q - fst g)\<^sup>2 + (snd q - snd g)\<^sup>2) < car_hexSize c * (6 / 10) \<and>
        cell_taken cells g \<and> \<not> same_cell g (car_x c, car_y c))"

definition recent :: "nat \<Rightarrow> 'a list \<Rightarrow> 'a list" where
  "recent n xs = rev (take n (rev xs))"

definition destination :: "car \<Rightarrow> int \<Rightarrow> real \<times> real" where
  "destination c d = neighbor_of (car_hexSize c) (car_x c, car_y c) d"

definition legal_with ::
  "(real \<Rightarrow> real \<Rightarrow> real \<Rightarrow> real \<Rightarrow> real \<Rightarrow> real \<Rightarrow> real \<Rightarrow> real \<Rightarrow> real \<Rightarrow> bool) \<Rightarrow>
   car \<Rightarrow> int \<Rightarrow> (key \<times> int) list \<Rightarrow> real \<Rightarrow> real \<Rightarrow> line list \<Rightarrow> bool" where
  "legal_with crossing c d cells cw ch lines \<longleftrightarrow>
     (let nx = fst (destination c d); ny = snd (destination c d) in
      (0 \<le> nx \<and> nx < cw \<and> 0 \<le> ny \<and> ny < ch) \<and>
      \<not> cell_taken cells (nx, ny) \<and>
      (\<forall>f \<in> {1 / 3, 2 / 3}.
         \<not> sample_blocked c cells (car_x c + (nx - car_x c) * f, car_y c + (ny - car_y c) * f)) \<and>
      (\<forall>l \<in> set (recent 100 lines).
         \<not> crossing (car_hexSize c) (car_x c) (car_y c) nx ny (lx1 l) (ly1 l) (lx2 l) (ly2 l)))"

text \<open>
  Legality as the claim states it, with the parametric test alone, and legality with
  the tolerance for segments that are nearly parallel.
\<close>

definition legal_as_claimed ::
  "car \<Rightarrow> int \<Rightarrow> (key \<times> int) list \<Rightarrow> real \<Rightarrow> real \<Rightarrow> line list \<Rightarrow> bool" where
  "legal_as_claimed = legal_with segments_intersect"

definition legal_move ::
  "car \<Rightarrow> int \<Rightarrow> (key \<times> int) list \<Rightarrow> real \<Rightarrow> real \<Rightarrow> line list \<Rightarrow> bool" where
  "legal_move = legal_with segments_cross"

section \<open>Concrete states\<close>

text \<open>A world whose every draw is 0 and whose clock always reads 1000.\<close>

definition still_world :: world where
  "still_world = \<lparr>rands = (\<lambda>_. Abs_unit_interval 0), times = (\<lambda>_. 1000)\<rparr>"

definition default_options :: options where
  "default_options =
     \<lparr>opt_hexSize = None, opt_maxCars = None, opt_mutationRate = None,
      opt_infiniteLifetime = None, opt_traceLifetime = None, opt_fadeDuration = None,
      opt_lineWidth = None, opt_stepDelay = None, opt_spawnDelay = None\<rparr>"

text \<open>The board of the default options on a window of 400 by 400, before any spawn.\<close>

definition fresh_board :: board where
  "fresh_board = setup_canvas 400 400 (CircuitBoard default_options)"

definition wanderer_at :: "nat \<Rightarrow> real \<Rightarrow> real \<Rightarrow> int \<Rightarrow> car" where
  "wanderer_at cid px py d =
     \<lparr>car_x = px, car_y = py, car_hexSize = 100, car_canvasWidth = 1000,
      car_canvasHeight = 1000, stuck = False, car_id = cid, birthTime = 900,
      hueOffset = 0, distanceTraveled = 0, cellsVisited = 0,
      car_strategy = Wanderer, preferredTurnDirection = TurnRight,
      previousDirection = None, currentDirection = d\<rparr>"

text \<open>
  Two wanderers just spawned on the row \<open>y = 0\<close>, two cells apart and heading towards
  each other: car 0 at \<open>(0, 0)\<close> heading East, car 1 at \<open>(200, 0)\<close> heading West.
\<close>

definition facing_cars :: board where
  "facing_cars =
     fresh_board
       \<lparr>occupiedCells := [((0, 0), 1), ((200, 0), 1)],
        cellTimestamps := [((0, 0), 900), ((200, 0), 900)],
        cellOwners := [((0, 0), 0), ((200, 0), 1)],
        cars := [wanderer_at 0 0 0 0, wanderer_at 1 200 0 3],
        nextCarId := 2, lastStepTime := 950, lastSpawnTime := 950\<rparr>"

definition segment_of :: "nat \<Rightarrow> real \<Rightarrow> real \<Rightarrow> real \<Rightarrow> real \<Rightarrow> line" where
  "segment_of cid ax ay bx by =
     \<lparr>lx1 = ax, ly1 = ay, lx2 = bx, ly2 = by, carId = cid, line_hueOffset = 0,
      line_birthTime = 900, timestamp = 950, segmentIndex = 0\<rparr>"

text \<open>
  Car 0 is alive at \<open>(100, 0)\<close> after one step from \<open>(0, 0)\<close>; car 1 died at time 1000
  on \<open>(300, 0)\<close> after one step from \<open>(400, 0)\<close>. Nine frames have been counted, so the
  next call of \<open>clearFadedCells\<close> prunes.
\<close>

definition one_alive_one_dead :: board where
  "one_alive_one_dead =
     fresh_board
       \<lparr>occupiedCells := [((0, 0), 1), ((400, 0), 1), ((100, 0), 1), ((300, 0), 1)],
        cellTimestamps := [((0, 0), 900), ((400, 0), 900), ((100, 0), 950), ((300, 0), 950)],
        cellOwners := [((0, 0), 0), ((400, 0), 1), ((100, 0), 0), ((300, 0), 1)],
        allLines := [segment_of 0 0 0 100 0, segment_of 1 400 0 300 0],
        cars := [wanderer_at 0 100 0 0],
        deadCarIds := [(1, 1000)],
        nextCarId := 2, cleanupFrameCounter := 9\<rparr>"


text \<open>A step East to \<open>(200, 0)\<close>.\<close>

definition east_move :: intended where
  "east_move = \<lparr>mv_x = 200, mv_y = 0, direction = 0, oldDirection = 0, is180 = False\<rparr>"

text \<open>The two facing cars after car 1 has been marked stuck.\<close>

definition one_stuck :: board where
  "one_stuck = facing_cars\<lparr>cars := [wanderer_at 0 0 0 0, (wanderer_at 1 200 0 3)\<lparr>stuck := True\<rparr>]\<rparr>"

text \<open>
  A canvas of one grid point in infinite-lifetime mode; the point is taken by the trace
  of car 0, dead since time 500, and no car is alive.
\<close>

definition full_board :: board where
  "full_board =
     fresh_board
       \<lparr>canvasWidth := 100, canvasHeight := 80, infiniteLifetime := True,
        occupiedCells := [((0, 0), 1)], cellTimestamps := [((0, 0), 400)],
        cellOwners := [((0, 0), 0)],
        allLines := [segment_of 0 0 0 0 0],
        deadCarIds := [(0, 500)], nextCarId := 1\<rparr>"

text \<open>A world whose every draw is 0.95.\<close>

definition late_world :: world where
  "late_world = \<lparr>rands = (\<lambda>_. Abs_unit_interval (19 / 20)), times = (\<lambda>_. 1000)\<rparr>"


section \<open>Properties\<close>

subsection \<open>Evaluation helpers\<close>

lemma Rep_unit_interval_zero: "Rep_unit_interval (Abs_unit_interval 0) = 0"
  by (simp add: Abs_unit_interval_inverse)

lemma sqrt_sum_squares_less_iff: "sqrt (a\<^sup>2 + b\<^sup>2) < c \<longleftrightarrow> 0 < c \<and> a\<^sup>2 + b\<^sup>2 < c\<^sup>2"
proof (cases "0 < c")
  case True
  have "sqrt (a\<^sup>2 + b\<^sup>2) < c \<longleftrightarrow> sqrt (a\<^sup>2 + b\<^sup>2) < sqrt (c\<^sup>2)"
    using True by simp
  also have "\<dots> \<longleftrightarrow> a\<^sup>2 + b\<^sup>2 < c\<^sup>2"
    by (rule real_sqrt_less_iff)
  finally show ?thesis using True by simp
next
  case False
  have "0 \<le> sqrt (a\<^sup>2 + b\<^sup>2)" by simp
  with False show ?thesis by linarith
qed

subsection \<open>Lifting a step invariant to the tick\<close>

lemma later_trans:
  assumes "later W1 W2" and "later W2 W3"
  shows "later W1 W3"
  using assms(2,1) by (induction rule: later.induct) (auto intro: later.intros)

lemma later_random': "later W (snd (Math_random W))"
  by (rule later_random) (rule later_refl)

lemma later_now': "later W (snd (Date_now W))"
  by (rule later_now) (rule later_refl)

lemma later_getColor: "later W (getColor W)"
  by (simp add: getColor_def split_def later_trans [OF later_now' later_now'])

lemma later_getSegmentColor: "later W (getSegmentColor W)"
  using later_trans [OF later_trans [OF later_now' later_now'] later_trans [OF later_now' later_now'], of W]
  by (simp add: getSegmentColor_def split_def)

lemma later_render: "later W (render segments W)"
proof (induction segments arbitrary: W)
  case Nil
  show ?case by (simp add: render_def later_refl)
next
  case (Cons l segments)
  from later_trans [OF later_getSegmentColor Cons [of "getSegmentColor W"]]
  show ?case by (simp add: render_def)
qed

lemma later_Car: "later W (snd (Car W px py cw ch hs strat cid))"
proof -
  let ?W2 = "snd (Math_random (snd (Date_now W)))"
  have "later W ?W2" by (rule later_trans [OF later_now' later_random'])
  then have "later W (getColor ?W2)" by (rule later_trans [OF _ later_getColor])
  then have "later W (snd (Math_random (snd (Math_random (getColor ?W2)))))"
    by (intro later_random)
  then show ?thesis by (simp add: Car_def Let_def split_def)
qed

lemma later_place_car: "later W (snd (place_car W strat gx gy s))"
  using later_now [OF later_Car, of W gx gy "canvasWidth s" "canvasHeight s" "hexSize s" strat "nextCarId s"]
  by (simp add: place_car_def Let_def split_def)

lemma later_executeMove: "later W (snd (snd (executeMove W c mv s)))"
proof -
  have 1: "later W (snd (Date_now (getColor (snd (Date_now W)))))"
    by (intro later_now later_trans [OF later_now' later_getColor])
  then have 2: "later W (snd (Date_now (snd (Date_now (getColor (snd (Date_now W)))))))"
    by (rule later_now)
  from 1 2 show ?thesis
    by (simp add: executeMove_def Let_def split_def later_refl)
qed

lemma invariant_later:
  assumes "step_invariant Q" and "later W W'" and "Q (s, W)"
  shows "Q (s, W')"
  using assms(2,3)
proof (induction rule: later.induct)
  case (later_refl W)
  then show ?case .
next
  case (later_random W W')
  with assms(1) show ?case by (simp add: step_invariant_def)
next
  case (later_now W W')
  with assms(1) show ?case by (simp add: step_invariant_def)
qed

lemma later_uniform_strategy: "later W (snd (uniform_strategy W))"
  by (simp add: uniform_strategy_def Let_def split_def later_random')

lemma later_selectStrategyByFitness: "later W (snd (selectStrategyByFitness W s))"
proof -
  have 1: "later W (snd (Math_random W))" by (rule later_random')
  have 2: "later W (snd (uniform_strategy (snd (Math_random W))))"
    by (rule later_trans [OF 1 later_uniform_strategy])
  have 3: "later W (snd (Math_random (snd (Math_random W))))"
    by (rule later_trans [OF 1 later_random'])
  show ?thesis
    using 2 3 by (simp add: selectStrategyByFitness_def Let_def split_def split: option.splits)
qed

lemma later_shuffle: "later W (snd (shuffle W n ps))"
proof (induction n arbitrary: W ps)
  case 0
  then show ?case by (simp add: later_refl)
next
  case (Suc n)
  show ?case
    using later_trans [OF later_random' Suc] by (simp add: Let_def split_def)
qed

lemma later_priorities_of: "later W (snd (priorities_of W c))"
proof (cases "car_strategy c")
  case Wanderer
  then show ?thesis
    using later_trans [OF later_random' later_random', of W]
    by (simp add: priorities_of_def Let_def split_def)
next
  case Explorer
  then show ?thesis by (simp add: priorities_of_def Let_def later_shuffle)
qed (simp_all add: priorities_of_def Let_def later_refl)

lemma later_calculateMove: "later W (snd (calculateMove W s c))"
  by (simp add: calculateMove_def Let_def split_def later_priorities_of)

lemma later_phase1: "phase1 W s i cs = Inr (es, W') \<Longrightarrow> later W W'"
proof (induction cs arbitrary: W i es)
  case Nil
  then show ?case by (simp add: later_refl)
next
  case (Cons c cs)
  show ?case
  proof (cases "stuck c")
    case True
    with Cons show ?thesis by simp
  next
    case False
    obtain r W1 where cm: "calculateMove W s c = (r, W1)" by (cases "calculateMove W s c")
    have l1: "later W W1" using later_calculateMove [of W s c] by (simp add: cm)
    from Cons.prems False cm obtain es' where "phase1 W1 s (Suc i) cs = Inr (es', W')"
      by (auto split: sum.splits)
    then have "later W1 W'" by (rule Cons.IH)
    with l1 show ?thesis by (rule later_trans)
  qed
qed

lemma spawn_random_cases:
  "spawn_random n W strat s = (r, W') \<Longrightarrow>
   (r = None \<and> later W W') \<or>
   (\<exists>W'' gx gy. later W W'' \<and> \<not> occupied (occupiedCells s) (getHexKey gx gy) \<and>
      r = Some (fst (place_car W'' strat gx gy s)) \<and> W' = snd (place_car W'' strat gx gy s))"
proof (induction n arbitrary: W)
  case 0
  then show ?case by (simp add: later_refl)
next
  case (Suc n)
  obtain gx gy W2 where g: "random_point W s = ((gx, gy), W2)"
    by (cases "random_point W s") auto
  have l2: "later W W2"
    using later_trans [OF later_random' later_random', of W] g
    by (simp add: random_point_def Let_def split_def)
  show ?case
  proof (cases "occupied (occupiedCells s) (getHexKey gx gy)")
    case True
    with Suc.prems g have "spawn_random n W2 strat s = (r, W')"
      by simp
    from Suc.IH [OF this] l2 show ?thesis
      by (auto intro: later_trans)
  next
    case False
    with Suc.prems g have "r = Some (fst (place_car W2 strat gx gy s))"
      and "W' = snd (place_car W2 strat gx gy s)"
      by (auto simp: Let_def split_def)
    with False l2 show ?thesis by blast
  qed
qed

lemma spawn_scan_free:
  "spawn_scan s cells = Some (gx, gy) \<Longrightarrow> \<not> occupied (occupiedCells s) (getHexKey gx gy)"
proof (induction cells)
  case Nil
  then show ?case by simp
next
  case (Cons rc rest)
  then show ?case
    by (cases rc) (auto simp: Let_def split_def split: if_splits)
qed

lemma spawnCar_cases:
  assumes "spawnCar W s = (ok, s', W')"
  shows "(\<not> ok \<and> s' = s \<and> later W W') \<or>
         (ok \<and> (\<exists>W'' strat gx gy. later W W'' \<and>
                  \<not> occupied (occupiedCells s) (getHexKey gx gy) \<and>
                  (s', W') = place_car W'' strat gx gy s))"
proof -
  obtain strat W1 where sel: "selectStrategyByFitness W s = (strat, W1)"
    by (cases "selectStrategyByFitness W s")
  have l1: "later W W1"
    using later_selectStrategyByFitness [of W s] by (simp add: sel)
  obtain r W2 where rnd: "spawn_random 100 W1 strat s = (r, W2)"
    by (cases "spawn_random 100 W1 strat s")
  show ?thesis
  proof (cases r)
    case (Some b)
    with spawn_random_cases [OF rnd] obtain W'' gx gy where
      "later W1 W''" and "\<not> occupied (occupiedCells s) (getHexKey gx gy)"
      and "b = fst (place_car W'' strat gx gy s)" and "W2 = snd (place_car W'' strat gx gy s)"
      by auto
    moreover from Some assms sel rnd have "ok" and "s' = b" and "W' = W2"
      by (auto simp: spawnCar_def)
    ultimately show ?thesis
      using l1 by (auto intro: later_trans)
  next
    case None
    with spawn_random_cases [OF rnd] have l2: "later W1 W2" by simp
    show ?thesis
    proof (cases "spawn_scan s (scan_order s)")
      case scan_none: None
      with None scan_none assms sel rnd have "\<not> ok" and "s' = s" and "W' = W2"
        by (auto simp: spawnCar_def)
      with l1 l2 show ?thesis by (auto intro: later_trans)
    next
      case (Some p)
      obtain gx gy where p: "p = (gx, gy)" by (cases p)
      from Some p have free: "\<not> occupied (occupiedCells s) (getHexKey gx gy)"
        by (simp add: spawn_scan_free)
      obtain s2 W3 where pl: "place_car W2 strat gx gy s = (s2, W3)"
        by (cases "place_car W2 strat gx gy s")
      with None Some p assms sel rnd have "ok" and "(s', W') = place_car W2 strat gx gy s"
        by (auto simp: spawnCar_def)
      moreover have "later W W2" by (rule later_trans [OF l1 l2])
      ultimately show ?thesis using free by blast
    qed
  qed
qed

lemma spawnCar_invariant:
  assumes "step_invariant Q" and "Q (s, W)"
  shows "Q (snd (spawnCar W s))"
proof -
  obtain ok s' W' where sp: "spawnCar W s = (ok, s', W')"
    by (cases "spawnCar W s")
  from spawnCar_cases [OF sp] show ?thesis
  proof (elim disjE conjE exE)
    assume "s' = s" and "later W W'"
    with invariant_later [OF assms(1) _ assms(2)] show ?thesis by (simp add: sp)
  next
    fix W'' strat gx gy
    assume l: "later W W''" and free: "\<not> occupied (occupiedCells s) (getHexKey gx gy)"
      and eq: "(s', W') = place_car W'' strat gx gy s"
    from invariant_later [OF assms(1) l assms(2)] free assms(1)
    have "Q (place_car W'' strat gx gy s)" by (simp add: step_invariant_def)
    with eq show ?thesis by (simp add: sp)
  qed
qed

lemma spawn_many_invariant:
  "step_invariant Q \<Longrightarrow> Q (s, W) \<Longrightarrow> Q (spawn_many n W s)"
proof (induction n arbitrary: s W)
  case 0
  then show ?case by simp
next
  case (Suc n)
  obtain ok s' W' where sp: "spawnCar W s = (ok, s', W')"
    by (cases "spawnCar W s")
  from spawnCar_invariant [OF Suc.prems] have "Q (s', W')" by (simp add: sp)
  from Suc.IH [OF Suc.prems(1) this] show ?case by (simp add: sp)
qed

lemma length_cars_executeMove: "cars (fst (snd (executeMove W c mv s))) = cars s"
  by (simp add: executeMove_def Let_def split_def)

lemma length_cars_execute_entry: "length (cars (fst (execute_entry W s i mv))) = length (cars s)"
  by (simp add: execute_entry_def Let_def split_def length_cars_executeMove)

lemma length_cars_mark_stuck: "length (cars (fst (mark_stuck W i s))) = length (cars s)"
  by (simp add: mark_stuck_def Let_def split_def)

lemma phase3_step_invariant:
  assumes inv: "step_invariant Q" and q: "Q (s, W)" and ok: "entries_ok es s" and i: "i < length es"
    and st: "phase3_step counts i (es, s, W) = (es', s', W')"
  shows "Q (s', W') \<and> entries_ok es' s' \<and> length es' = length es"
proof -
  let ?e = "es ! i"
  from i have mem: "?e \<in> set es" by simp
  with ok have idx: "carIndex ?e < length (cars s)"
    by (simp add: entries_ok_def)
  have exec: "Q (execute_entry W s (carIndex e') mv) \<and>
              entries_ok es (fst (execute_entry W s (carIndex e') mv))"
    if "e' \<in> set es" and "entry_move e' = Some mv" for e' mv
  proof -
    from that ok have "carIndex e' < length (cars s)" and "0 \<le> direction mv" and "direction mv < 6"
      by (auto simp: entries_ok_def)
    with inv q have "Q (execute_entry W s (carIndex e') mv)"
      by (simp add: step_invariant_def)
    moreover from ok have "entries_ok es (fst (execute_entry W s (carIndex e') mv))"
      by (simp add: entries_ok_def length_cars_execute_entry)
    ultimately show ?thesis ..
  qed
  have upd: "entries_ok (es[i := ?e\<lparr>entry_move := None\<rparr>]) t" if "entries_ok es t" for t
    unfolding entries_ok_def
  proof
    fix e assume "e \<in> set (es[i := ?e\<lparr>entry_move := None\<rparr>])"
    then have "e = ?e\<lparr>entry_move := None\<rparr> \<or> e \<in> set es"
      using set_update_subset_insert [of es i] by auto
    with that mem show "carIndex e < length (cars t) \<and>
        (\<forall>mv. entry_move e = Some mv \<longrightarrow> 0 \<le> direction mv \<and> direction mv < 6)"
      by (auto simp: entries_ok_def)
  qed
  have mark: "Q (mark_stuck W (carIndex ?e) s) \<and> entries_ok es (fst (mark_stuck W (carIndex ?e) s))"
    using idx inv q ok by (simp add: step_invariant_def entries_ok_def length_cars_mark_stuck)
  show ?thesis
  proof (cases "entry_move ?e")
    case None
    with st mark show ?thesis
      by (auto simp: phase3_step_def Let_def split_def)
  next
    case (Some mv)
    show ?thesis
    proof (cases "snappedDestKey ?e")
      case None
      with Some st mark show ?thesis
        by (auto simp: phase3_step_def Let_def split_def)
    next
      case k: (Some k)
      show ?thesis
      proof (cases "counts k = Some 1")
        case True
        with Some k st exec [OF mem Some] show ?thesis
          by (auto simp: phase3_step_def Let_def split_def)
      next
        case False
        let ?cs = "filter (\<lambda>e'. snappedDestKey e' = Some k \<and> entry_move e' \<noteq> None) es"
        show ?thesis
        proof (cases ?cs)
          case Nil
          with Some k False st q ok show ?thesis
            by (simp add: phase3_step_def Let_def)
        next
          case (Cons first rest)
          then have "first \<in> set ?cs" by simp
          then have fin: "first \<in> set es" by simp
          show ?thesis
          proof (cases "entry_move first")
            case None
            with Some k False Cons st q ok show ?thesis
              by (simp add: phase3_step_def Let_def)
          next
            case mv1: (Some mv1)
            with Some k False Cons st exec [OF fin mv1] upd show ?thesis
              by (auto simp: phase3_step_def Let_def split_def)
          qed
        qed
      qed
    qed
  qed
qed

lemma phase3_fold_invariant:
  assumes inv: "step_invariant Q"
  shows "Q (s, W) \<Longrightarrow> entries_ok es s \<Longrightarrow> \<forall>i \<in> set js. i < length es \<Longrightarrow>
         fold (phase3_step counts) js (es, s, W) = (es', s', W') \<Longrightarrow>
         Q (s', W') \<and> entries_ok es' s' \<and> length es' = length es"
proof (induction js arbitrary: es s W)
  case Nil
  then show ?case by simp
next
  case (Cons j js)
  obtain es1 s1 W1 where st: "phase3_step counts j (es, s, W) = (es1, s1, W1)"
    by (cases "phase3_step counts j (es, s, W)")
  from Cons.prems have j: "j < length es" by simp
  from phase3_step_invariant [OF inv Cons.prems(1,2) j st]
  have q1: "Q (s1, W1)" and ok1: "entries_ok es1 s1" and len1: "length es1 = length es"
    by simp_all
  from Cons.prems(3) len1 have rest: "\<forall>i \<in> set js. i < length es1" by simp
  from Cons.prems(4) st have "fold (phase3_step counts) js (es1, s1, W1) = (es', s', W')"
    by simp
  from Cons.IH [OF q1 ok1 rest this] len1 show ?case by simp
qed

lemma phase3_invariant:
  assumes "step_invariant Q" and "Q (s, W)" and "entries_ok es s"
  shows "Q (phase3 counts es s W)"
proof -
  obtain es' s' W' where f: "fold (phase3_step counts) [0..<length es] (es, s, W) = (es', s', W')"
    by (cases "fold (phase3_step counts) [0..<length es] (es, s, W)")
  have "\<forall>i \<in> set [0..<length es]. i < length es" by simp
  from phase3_fold_invariant [OF assms(1,2,3) this f] show ?thesis
    by (simp add: phase3_def f)
qed

lemma tryDirection_direction:
  "tryDirection c d cells cw ch ls = Inr (Some mv) \<Longrightarrow> direction mv = d \<and> 0 \<le> d \<and> d < 6"
  by (auto simp: tryDirection_def Let_def split_def split: if_splits)

lemma try_priorities_direction:
  "try_priorities s c ps = Inr (Some mv) \<Longrightarrow> 0 \<le> direction mv \<and> direction mv < 6"
proof (induction ps)
  case Nil
  then show ?case by simp
next
  case (Cons d ps)
  show ?case
  proof (cases "tryDirection c d (occupiedCells s) (canvasWidth s) (canvasHeight s) (allLines s)")
    case (Inl e)
    with Cons.prems show ?thesis by simp
  next
    case (Inr r)
    show ?thesis
    proof (cases r)
      case None
      with Inr Cons show ?thesis by simp
    next
      case (Some m)
      with Inr have "direction m = d \<and> 0 \<le> d \<and> d < 6"
        by (simp add: tryDirection_direction)
      with Inr Some Cons.prems show ?thesis
        by (auto simp: scoreMove_def Let_def)
    qed
  qed
qed

lemma calculateMove_direction:
  "fst (calculateMove W s c) = Inr (Some mv) \<Longrightarrow> 0 \<le> direction mv \<and> direction mv < 6"
  by (auto simp: calculateMove_def Let_def split_def dest: try_priorities_direction)

lemma phase1_entries:
  "phase1 W s i cs = Inr (es, W') \<Longrightarrow>
   \<forall>e \<in> set es. carIndex e < i + length cs \<and>
     (\<forall>mv. entry_move e = Some mv \<longrightarrow> 0 \<le> direction mv \<and> direction mv < 6)"
proof (induction cs arbitrary: W i es)
  case Nil
  then show ?case by simp
next
  case (Cons c cs)
  show ?case
  proof (cases "stuck c")
    case True
    with Cons.prems have "phase1 W s (Suc i) cs = Inr (es, W')" by simp
    from Cons.IH [OF this] show ?thesis by auto
  next
    case False
    obtain r W1 where cm: "calculateMove W s c = (r, W1)" by (cases "calculateMove W s c")
    from Cons.prems False cm obtain m es1 where r: "r = Inr m"
      and rec: "phase1 W1 s (Suc i) cs = Inr (es1, W')"
      and es: "es = \<lparr>carIndex = i, entry_move = m, snappedDestKey = None\<rparr> # es1"
      by (auto split: sum.splits)
    from cm r have "fst (calculateMove W s c) = Inr m" by simp
    then have "\<forall>mv. m = Some mv \<longrightarrow> 0 \<le> direction mv \<and> direction mv < 6"
      by (auto dest: calculateMove_direction)
    with Cons.IH [OF rec] es show ?thesis by auto
  qed
qed

lemma phase2_same:
  "map (\<lambda>e. (carIndex e, entry_move e)) (fst (phase2 s counts es)) =
   map (\<lambda>e. (carIndex e, entry_move e)) es"
  by (induction es arbitrary: counts) (auto simp: Let_def split_def split: option.splits)

lemma phase2_entries_ok:
  assumes "entries_ok es s"
  shows "entries_ok (fst (phase2 s' counts es)) s"
  unfolding entries_ok_def
proof
  fix e assume "e \<in> set (fst (phase2 s' counts es))"
  then have "(carIndex e, entry_move e) \<in> set (map (\<lambda>e. (carIndex e, entry_move e)) (fst (phase2 s' counts es)))"
    by force
  then have "(carIndex e, entry_move e) \<in> set (map (\<lambda>e. (carIndex e, entry_move e)) es)"
    by (simp only: phase2_same)
  then obtain e' where "e' \<in> set es" and "carIndex e' = carIndex e" and "entry_move e' = entry_move e"
    by auto
  with assms show "carIndex e < length (cars s) \<and>
      (\<forall>mv. entry_move e = Some mv \<longrightarrow> 0 \<le> direction mv \<and> direction mv < 6)"
    by (auto simp: entries_ok_def)
qed

lemma phase4_invariant:
  assumes inv: "tick_invariant Q"
  shows "Q (s, W) \<Longrightarrow> n \<le> length (cars s) \<Longrightarrow> Q (phase4 n W s)"
proof (induction n arbitrary: s W)
  case 0
  then show ?case by simp
next
  case (Suc n)
  show ?case
  proof (cases "stuck (cars s ! n)")
    case False
    with Suc show ?thesis by simp
  next
    case True
    obtain s1 W1 where r: "retire W n s = (s1, W1)" by (cases "retire W n s")
    from Suc.prems True inv have "Q (retire W n s)" by (simp add: tick_invariant_def)
    then have q1: "Q (s1, W1)" by (simp add: r)
    from r have "cars s1 = take n (cars s) @ drop (Suc n) (cars s)"
      by (auto simp: retire_def Let_def split_def)
    with Suc.prems(2) have "n \<le> length (cars s1)" by simp
    from Suc.IH [OF q1 this] True r show ?thesis by simp
  qed
qed

lemma find_oldest_mem:
  "find_oldest xs best = Some p \<Longrightarrow> p \<in> set xs \<or> best = Some p"
proof (induction xs arbitrary: best)
  case Nil
  then show ?case by simp
next
  case (Cons x xs)
  obtain cid t where x: "x = (cid, t)" by (cases x)
  from Cons.prems x consider
    "find_oldest xs (Some (cid, t)) = Some p" | "find_oldest xs best = Some p"
    by (auto split: option.splits if_splits)
  then show ?case
  proof cases
    case 1
    from Cons.IH [OF 1] x show ?thesis by auto
  next
    case 2
    from Cons.IH [OF 2] show ?thesis by auto
  qed
qed

lemma spawn_phase_invariant:
  assumes inv: "step_invariant Q" and q: "Q (s, W)"
  shows "Q (spawn_phase now W s)"
proof (cases "lt (real (length (cars s))) (maxCars s) \<and> now - lastSpawnTime s \<ge> spawnDelay s")
  case False
  with q show ?thesis by (auto simp: spawn_phase_def)
next
  case True
  obtain ok s1 W1 where sp: "spawnCar W s = (ok, s1, W1)" by (cases "spawnCar W s")
  from spawnCar_invariant [OF inv q] have q1: "Q (s1, W1)" by (simp add: sp)
  have fin: "Q (t\<lparr>lastSpawnTime := now\<rparr>, V)" if "Q (t, V)" for t V
    using that inv by (simp add: step_invariant_def)
  show ?thesis
  proof (cases "infiniteLifetime s1 \<and> \<not> ok \<and> length (deadCarIds s1) > 0")
    case False
    with True sp fin [OF q1] show ?thesis
      by (auto simp: spawn_phase_def)
  next
    case evict: True
    show ?thesis
    proof (cases "find_oldest (sort_key fst (deadCarIds s1)) None")
      case None
      with True evict sp fin [OF q1] show ?thesis
        by (auto simp: spawn_phase_def)
    next
      case (Some p)
      obtain cid t where p: "p = (cid, t)" by (cases p)
      from find_oldest_mem [OF Some] p have "(cid, t) \<in> set (deadCarIds s1)" by simp
      then have "cid \<in> fst ` set (deadCarIds s1)" by force
      with q1 inv have "Q (removeCarTraces cid s1, W1)" by (simp add: step_invariant_def)
      from spawnCar_invariant [OF inv this]
      have "Q (snd (spawnCar W1 (removeCarTraces cid s1)))" .
      from fin [of "fst (snd (spawnCar W1 (removeCarTraces cid s1)))"
                   "snd (snd (spawnCar W1 (removeCarTraces cid s1)))"] this
      show ?thesis
        using True evict sp Some p by (simp add: spawn_phase_def Let_def split_def)
    qed
  qed
qed

lemma draw_invariant:
  assumes inv: "tick_invariant Q" and q: "Q (s, W)" and d: "draw W s = Inr r"
  shows "Q r"
proof -
  from inv have stp: "step_invariant Q" by (simp add: tick_invariant_def)
  let ?now = "fst (Date_now W)"
  let ?W0 = "render (allLines s) (snd (Date_now W))"
  let ?s1 = "clearFadedCells ?now (map car_id (cars s)) s"
  have "later W ?W0" by (rule later_trans [OF later_now' later_render])
  from invariant_later [OF stp this q] have "Q (s, ?W0)" .
  with stp have q1: "Q (?s1, ?W0)" by (simp add: step_invariant_def)
  show ?thesis
  proof (cases "?now - lastStepTime ?s1 \<ge> stepDelay ?s1")
    case False
    with d q1 show ?thesis by (auto simp: draw_def Let_def split_def)
  next
    case True
    let ?s2 = "?s1\<lparr>lastStepTime := ?now\<rparr>"
    from q1 stp have q2: "Q (?s2, ?W0)" by (simp add: step_invariant_def)
    from d True obtain es W1 where p1: "phase1 ?W0 ?s2 0 (cars ?s2) = Inr (es, W1)"
      by (auto simp: draw_def Let_def split_def split: sum.splits)
    from invariant_later [OF stp later_phase1 [OF p1] q2] have q3: "Q (?s2, W1)" .
    from phase1_entries [OF p1] have ok: "entries_ok es ?s2"
      by (simp add: entries_ok_def)
    obtain es2 counts where p2: "phase2 ?s2 Map.empty es = (es2, counts)"
      by (cases "phase2 ?s2 Map.empty es")
    from phase2_entries_ok [OF ok, of ?s2 Map.empty] p2 have ok2: "entries_ok es2 ?s2" by simp
    obtain s3 W3 where p3: "phase3 counts es2 ?s2 W1 = (s3, W3)"
      by (cases "phase3 counts es2 ?s2 W1")
    from phase3_invariant [OF stp q3 ok2, of counts] p3 have q4: "Q (s3, W3)" by simp
    obtain s4 W4 where p4: "phase4 (length (cars s3)) W3 s3 = (s4, W4)"
      by (cases "phase4 (length (cars s3)) W3 s3")
    from phase4_invariant [OF inv q4, of "length (cars s3)"] p4 have q5: "Q (s4, W4)" by simp
    from spawn_phase_invariant [OF stp q5, of ?now] d True p1 p2 p3 p4 show ?thesis
      by (simp add: draw_def Let_def split_def)
  qed
qed

subsection \<open>Association lists\<close>

lemma delete_keys_filter: "delete_keys ks al = filter (\<lambda>p. fst p \<notin> set ks) al"
  unfolding delete_keys_def
proof (induction ks arbitrary: al)
  case Nil
  then show ?case by simp
next
  case (Cons k ks)
  have "AList.delete k al = filter (\<lambda>p. fst p \<noteq> k) al"
    by (simp add: AList.delete_eq split_def) metis
  then show ?case by (simp add: Cons conj_commute)
qed

lemma keys_delete_keys: "fst ` set (delete_keys ks al) = fst ` set al - set ks"
  by (auto simp: delete_keys_filter)

lemma map_of_delete_keys:
  "map_of (delete_keys ks al) k = (if k \<in> set ks then None else map_of al k)"
  by (induction al) (auto simp: delete_keys_filter)

lemma distinct_delete_keys:
  "distinct (map fst al) \<Longrightarrow> distinct (map fst (delete_keys ks al))"
  by (simp add: delete_keys_filter distinct_map_filter)

lemma keys_update: "fst ` set (AList.update k v al) = insert k (fst ` set al)"
  by (simp add: AList.dom_update)

lemma set_update_subset: "set (AList.update k v al) \<subseteq> insert (k, v) (set al)"
  by (induction al) auto

subsection \<open>Consistency of the cell tables\<close>

lemma free_key:
  assumes "cells_consistent s" and "\<not> occupied (occupiedCells s) k"
  shows "map_of (occupiedCells s) k = None"
proof (cases "map_of (occupiedCells s) k")
  case None
  then show ?thesis .
next
  case (Some v)
  then have "(k, v) \<in> set (occupiedCells s)" by (rule map_of_SomeD)
  with assms(1) have "v = 1" by (auto simp: cells_consistent_def)
  with Some assms(2) show ?thesis by (simp add: occupied_def)
qed

lemma free_next_count:
  "cells_consistent s \<Longrightarrow> \<not> occupied (occupiedCells s) k \<Longrightarrow> next_count (occupiedCells s) k = 1"
  by (simp add: next_count_def free_key)

lemma claim_cell_consistent:
  assumes "cells_consistent s" and "\<not> occupied (occupiedCells s) k"
  shows "cells_consistent
           (s\<lparr>occupiedCells := AList.update k (next_count (occupiedCells s) k) (occupiedCells s),
              cellTimestamps := AList.update k t (cellTimestamps s),
              cellOwners := AList.update k a (cellOwners s)\<rparr>)"
proof -
  have ones: "\<forall>p \<in> set (AList.update k 1 (occupiedCells s)). snd p = 1"
    using assms(1) set_update_subset [of k 1 "occupiedCells s"]
    by (auto simp: cells_consistent_def)
  show ?thesis
    using assms ones by (simp add: cells_consistent_def keys_update free_next_count)
qed

lemma delete_cells_consistent:
  assumes "cells_consistent s"
  shows "cells_consistent
           (s\<lparr>occupiedCells := delete_keys ks (occupiedCells s),
              cellTimestamps := delete_keys ks (cellTimestamps s),
              cellOwners := delete_keys ks (cellOwners s)\<rparr>)"
proof -
  have ones: "\<forall>p \<in> set (delete_keys ks (occupiedCells s)). snd p = 1"
    using assms by (simp add: cells_consistent_def delete_keys_filter)
  show ?thesis
    using assms ones by (simp add: cells_consistent_def keys_delete_keys)
qed

lemma place_car_consistent:
  assumes "cells_consistent s" and "\<not> occupied (occupiedCells s) (getHexKey gx gy)"
  shows "cells_consistent (fst (place_car W strat gx gy s))"
  using claim_cell_consistent [OF assms]
  by (simp add: place_car_def Let_def split_def cells_consistent_def)

lemma executeMove_consistent:
  assumes "cells_consistent s"
  shows "cells_consistent (fst (snd (executeMove W c mv s)))"
proof -
  obtain sx sy where sn: "snap (hexSize s) (mv_x mv) (mv_y mv) = (sx, sy)"
    by (cases "snap (hexSize s) (mv_x mv) (mv_y mv)")
  show ?thesis
  proof (cases "occupied (occupiedCells s) (getHexKey sx sy)")
    case True
    then show ?thesis using assms by (simp add: executeMove_def sn)
  next
    case False
    from claim_cell_consistent [OF assms False] show ?thesis
      using False by (simp add: executeMove_def sn Let_def split_def cells_consistent_def)
  qed
qed

lemma execute_entry_consistent:
  "cells_consistent s \<Longrightarrow> cells_consistent (fst (execute_entry W s i mv))"
  using executeMove_consistent [of s W "cars s ! i" mv]
  by (simp add: execute_entry_def Let_def split_def cells_consistent_def)

lemma removeCarTraces_consistent:
  assumes "cells_consistent s"
  shows "cells_consistent (removeCarTraces cid s)"
  using delete_cells_consistent [OF assms]
  by (simp add: removeCarTraces_def Let_def cells_consistent_def)

lemma clearFadedCells_consistent:
  assumes "cells_consistent s"
  shows "cells_consistent (clearFadedCells now alive s)"
  using delete_cells_consistent [OF assms] assms
  by (simp add: clearFadedCells_def Let_def cells_consistent_def)

lemma board_step_invariantI:
  assumes "\<And>s W strat gx gy. P s \<Longrightarrow> \<not> occupied (occupiedCells s) (getHexKey gx gy) \<Longrightarrow>
             P (fst (place_car W strat gx gy s))"
    and "\<And>s W i mv. P s \<Longrightarrow> i < length (cars s) \<Longrightarrow> 0 \<le> direction mv \<Longrightarrow> direction mv < 6 \<Longrightarrow>
             P (fst (execute_entry W s i mv))"
    and "\<And>s W i. P s \<Longrightarrow> i < length (cars s) \<Longrightarrow> P (fst (mark_stuck W i s))"
    and "\<And>s cid. P s \<Longrightarrow> cid \<in> fst ` set (deadCarIds s) \<Longrightarrow> P (removeCarTraces cid s)"
    and "\<And>s now. P s \<Longrightarrow> P (clearFadedCells now (map car_id (cars s)) s)"
    and "\<And>s t. P s \<Longrightarrow> P (s\<lparr>lastStepTime := t\<rparr>)"
    and "\<And>s t. P s \<Longrightarrow> P (s\<lparr>lastSpawnTime := t\<rparr>)"
  shows "step_invariant (\<lambda>q. P (fst q))"
  unfolding step_invariant_def using assms by simp

lemma board_invariantI:
  assumes "\<And>s W strat gx gy. P s \<Longrightarrow> \<not> occupied (occupiedCells s) (getHexKey gx gy) \<Longrightarrow>
             P (fst (place_car W strat gx gy s))"
    and "\<And>s W i mv. P s \<Longrightarrow> i < length (cars s) \<Longrightarrow> 0 \<le> direction mv \<Longrightarrow> direction mv < 6 \<Longrightarrow>
             P (fst (execute_entry W s i mv))"
    and "\<And>s W i. P s \<Longrightarrow> i < length (cars s) \<Longrightarrow> P (fst (mark_stuck W i s))"
    and "\<And>s W i. P s \<Longrightarrow> i < length (cars s) \<Longrightarrow> stuck (cars s ! i) \<Longrightarrow> P (fst (retire W i s))"
    and "\<And>s cid. P s \<Longrightarrow> cid \<in> fst ` set (deadCarIds s) \<Longrightarrow> P (removeCarTraces cid s)"
    and "\<And>s now. P s \<Longrightarrow> P (clearFadedCells now (map car_id (cars s)) s)"
    and "\<And>s t. P s \<Longrightarrow> P (s\<lparr>lastStepTime := t\<rparr>)"
    and "\<And>s t. P s \<Longrightarrow> P (s\<lparr>lastSpawnTime := t\<rparr>)"
  shows "tick_invariant (\<lambda>q. P (fst q))"
  unfolding tick_invariant_def step_invariant_def using assms by simp

lemma tick_invariant_step: "tick_invariant Q \<Longrightarrow> step_invariant Q"
  by (simp add: tick_invariant_def)

lemma cells_consistent_tick: "tick_invariant (\<lambda>q. cells_consistent (fst q))"
proof (rule board_invariantI)
  show "cells_consistent (fst (mark_stuck W i s))" if "cells_consistent s" for s W i
    using that by (simp add: mark_stuck_def Let_def split_def cells_consistent_def)
  show "cells_consistent (fst (retire W i s))" if "cells_consistent s" for s W i
    using that by (simp add: retire_def Let_def split_def cells_consistent_def)
  show "cells_consistent (s\<lparr>lastStepTime := t\<rparr>)" if "cells_consistent s" for s t
    using that by (simp add: cells_consistent_def)
  show "cells_consistent (s\<lparr>lastSpawnTime := t\<rparr>)" if "cells_consistent s" for s t
    using that by (simp add: cells_consistent_def)
qed (simp_all add: place_car_consistent execute_entry_consistent removeCarTraces_consistent
      clearFadedCells_consistent)

lemma maxCars_step: "step_invariant (\<lambda>q. maxCars (fst q) = m)"
  by (rule board_step_invariantI)
    (simp_all add: place_car_def execute_entry_def executeMove_def mark_stuck_def
      removeCarTraces_def clearFadedCells_def Let_def split_def)

lemma spawnCar_maxCars: "maxCars (fst (snd (spawnCar W s))) = maxCars s"
  using spawnCar_invariant [OF maxCars_step [of "maxCars s"], of s W] by simp

subsection \<open>The spawn loop\<close>

lemma lt_ceiling: "lt (real i) (Num v) \<longleftrightarrow> i < nat \<lceil>v\<rceil>"
proof -
  have "real i < v \<longleftrightarrow> int i < \<lceil>v\<rceil>" by (simp add: less_ceiling_iff)
  also have "\<dots> \<longleftrightarrow> i < nat \<lceil>v\<rceil>" by (simp add: zless_nat_eq_int_zless)
  finally show ?thesis by (simp add: lt_def)
qed

lemma spawn_loop_finite:
  "maxCars s = Num v \<Longrightarrow> spawn_loop i W s = Some (spawn_many (nat \<lceil>v\<rceil> - i) W s)"
proof (induction "nat \<lceil>v\<rceil> - i" arbitrary: i W s)
  case 0
  from 0(1) have "\<not> i < nat \<lceil>v\<rceil>" by arith
  with 0(2) lt_ceiling [of i v] have "\<not> lt (real i) (maxCars s)" by simp
  with 0 show ?case by (subst spawn_loop.simps) simp
next
  case (Suc n)
  from Suc.hyps(2) have "i < nat \<lceil>v\<rceil>" by arith
  with Suc.prems lt_ceiling [of i v] have l: "lt (real i) (maxCars s)" by simp
  obtain ok s' W' where sp: "spawnCar W s = (ok, s', W')" by (cases "spawnCar W s")
  from spawnCar_maxCars [of W s] sp Suc.prems have m: "maxCars s' = Num v" by simp
  from Suc.hyps(2) have n: "n = nat \<lceil>v\<rceil> - (i + 1)" and d: "nat \<lceil>v\<rceil> - i = Suc n" by simp_all
  from Suc.hyps(1) [OF n m] have "spawn_loop (i + 1) W' s' = Some (spawn_many n W' s')"
    using n by simp
  with l sp d show ?case by (subst spawn_loop.simps) simp
qed

lemma spawn_loop_minus:
  "maxCars s = MinusInfinity \<Longrightarrow> spawn_loop i W s = Some (s, W)"
  by (subst spawn_loop.simps) (simp add: lt_def)

lemma spawn_loop_returns_bounded:
  assumes "spawn_loop i W s = Some r"
  shows "maxCars s \<noteq> PlusInfinity"
proof (rule spawn_loop.raw_induct [where P = "\<lambda>i W s r. maxCars s \<noteq> PlusInfinity", OF _ assms])
  fix f :: "nat \<Rightarrow> world \<Rightarrow> board \<Rightarrow> (board \<times> world) option" and i W s r
  assume IH: "\<And>i W s r. f i W s = Some r \<Longrightarrow> maxCars s \<noteq> PlusInfinity"
    and st: "(if lt (real i) (maxCars s) then
                (case spawnCar W s of (ok, s', W') \<Rightarrow> f (i + 1) W' s')
              else Some (s, W)) = Some r"
  show "maxCars s \<noteq> PlusInfinity"
  proof
    assume inf: "maxCars s = PlusInfinity"
    obtain ok s' W' where sp: "spawnCar W s = (ok, s', W')" by (cases "spawnCar W s")
    from spawnCar_maxCars [of W s] sp inf have "maxCars s' = PlusInfinity" by simp
    moreover from st inf sp have "f (i + 1) W' s' = Some r" by (simp add: lt_def)
    ultimately show False using IH by blast
  qed
qed

lemma spawn_loop_infinite:
  "maxCars s = PlusInfinity \<Longrightarrow> spawn_loop i W s = None"
  using spawn_loop_returns_bounded [of i W s] by (cases "spawn_loop i W s") auto

lemma spawn_loop_returns:
  "maxCars s \<noteq> PlusInfinity \<Longrightarrow> \<exists>r. spawn_loop i W s = Some r"
  by (cases "maxCars s") (simp_all add: spawn_loop_finite spawn_loop_minus)

lemma spawn_loop_invariant:
  assumes "step_invariant Q" and "Q (s, W)" and "spawn_loop i W s = Some r"
  shows "Q r"
proof (cases "maxCars s")
  case (Num v)
  with assms(3) spawn_loop_finite [OF Num, of i W] spawn_many_invariant [OF assms(1,2), of "nat \<lceil>v\<rceil> - i"]
  show ?thesis by simp
next
  case PlusInfinity
  with assms(3) spawn_loop_infinite [of s i W] show ?thesis by simp
next
  case MinusInfinity
  with assms(2,3) spawn_loop_minus [of s i W] show ?thesis by simp
qed

lemma init_invariant:
  assumes inv: "tick_invariant Q" and q: "Q (setup_canvas iw ih s, W)"
    and i: "init W iw ih s = Some (Inr r)"
  shows "Q r"
proof -
  let ?s1 = "setup_canvas iw ih s"
  from i obtain s2 W2 where sm: "(if spawnDelay ?s1 = 0 then spawn_loop 0 W ?s1 else Some (?s1, W)) = Some (s2, W2)"
    and d: "draw W2 s2 = Inr r"
    by (auto simp: init_def Let_def split: option.splits)
  have "Q (s2, W2)"
    using sm q spawn_loop_invariant [OF tick_invariant_step [OF inv] q, of 0 "(s2, W2)"]
    by (auto split: if_splits)
  then show ?thesis using d by (rule draw_invariant [OF inv])
qed

subsection \<open>No double occupancy\<close>

lemma owned_is_occupied:
  assumes "cells_consistent s" and "map_of (cellOwners s) k = Some a"
  shows "occupied (occupiedCells s) k"
proof -
  from assms(2) have "k \<in> fst ` set (cellOwners s)"
    by (metis domI dom_map_of_conv_image_fst)
  with assms(1) have "k \<in> fst ` set (occupiedCells s)"
    by (simp add: cells_consistent_def)
  then obtain v where v: "map_of (occupiedCells s) k = Some v"
    by (metis domD dom_map_of_conv_image_fst)
  then have "(k, v) \<in> set (occupiedCells s)" by (rule map_of_SomeD)
  with assms(1) have "v = 1" by (auto simp: cells_consistent_def)
  with v show ?thesis by (simp add: occupied_def)
qed

lemma Car_fields:
  "car_x (fst (Car W px py cw ch hs strat cid)) = px"
  "car_y (fst (Car W px py cw ch hs strat cid)) = py"
  "car_id (fst (Car W px py cw ch hs strat cid)) = cid"
  "stuck (fst (Car W px py cw ch hs strat cid)) = False"
  "distanceTraveled (fst (Car W px py cw ch hs strat cid)) = 0"
  "cellsVisited (fst (Car W px py cw ch hs strat cid)) = 0"
  "birthTime (fst (Car W px py cw ch hs strat cid)) = times W 0"
  by (simp_all add: Car_def Let_def split_def Date_now_def)

lemma place_car_fields:
  "cars (fst (place_car W strat gx gy s)) =
     cars s @ [fst (Car W gx gy (canvasWidth s) (canvasHeight s) (hexSize s) strat (nextCarId s))]"
  "nextCarId (fst (place_car W strat gx gy s)) = nextCarId s + 1"
  "cellOwners (fst (place_car W strat gx gy s)) =
     AList.update (getHexKey gx gy) (nextCarId s) (cellOwners s)"
  "deadCarIds (fst (place_car W strat gx gy s)) = deadCarIds s"
  "allLines (fst (place_car W strat gx gy s)) = allLines s"
  "strategyFitness (fst (place_car W strat gx gy s)) = strategyFitness s"
  by (simp_all add: place_car_def Let_def split_def)

lemma place_car_one_owner:
  assumes inv: "one_owner_per_cell s" and free: "\<not> occupied (occupiedCells s) (getHexKey gx gy)"
  shows "one_owner_per_cell (fst (place_car W strat gx gy s))"
proof -
  let ?k = "getHexKey gx gy"
  let ?c = "fst (Car W gx gy (canvasWidth s) (canvasHeight s) (hexSize s) strat (nextCarId s))"
  from inv have cons: "cells_consistent s" by (simp add: one_owner_per_cell_def)
  have other: "car_key c \<noteq> ?k" if "c \<in> set (cars s)" for c
  proof
    assume "car_key c = ?k"
    moreover from inv that have "map_of (cellOwners s) (car_key c) = Some (car_id c)"
      by (simp add: one_owner_per_cell_def)
    ultimately have "occupied (occupiedCells s) ?k"
      using owned_is_occupied [OF cons] by simp
    with free show False ..
  qed
  have own: "car_key ?c = ?k" by (simp add: car_key_def Car_fields)
  show ?thesis
    unfolding one_owner_per_cell_def
  proof (intro conjI)
    show "cells_consistent (fst (place_car W strat gx gy s))"
      using cons free by (rule place_car_consistent)
    show "distinct (map fst (cellOwners (fst (place_car W strat gx gy s))))"
      using inv by (simp add: place_car_fields one_owner_per_cell_def AList.distinct_update)
    show "\<forall>c\<in>set (cars (fst (place_car W strat gx gy s))).
            map_of (cellOwners (fst (place_car W strat gx gy s))) (car_key c) = Some (car_id c)"
      using inv other own
      by (auto simp: place_car_fields one_owner_per_cell_def AList.update_conv' Car_fields)
    show "distinct (map car_id (cars (fst (place_car W strat gx gy s))))"
      using inv by (auto simp: place_car_fields one_owner_per_cell_def Car_fields)
    show "\<forall>c\<in>set (cars (fst (place_car W strat gx gy s))). car_id c < nextCarId (fst (place_car W strat gx gy s))"
      using inv by (auto simp: place_car_fields one_owner_per_cell_def Car_fields less_Suc_eq)
    show "\<forall>d\<in>fst ` set (deadCarIds (fst (place_car W strat gx gy s))).
            d < nextCarId (fst (place_car W strat gx gy s)) \<and>
            d \<notin> car_id ` set (cars (fst (place_car W strat gx gy s)))"
      using inv by (auto simp: place_car_fields one_owner_per_cell_def Car_fields less_Suc_eq)
  qed
qed

lemma executeMove_refused:
  assumes "occupied (occupiedCells s) (dest_key s mv)"
  shows "executeMove W c mv s = (c\<lparr>stuck := True\<rparr>, s, W)"
  using assms by (simp add: executeMove_def dest_key_def Let_def split_def)

lemma executeMove_committed:
  assumes "\<not> occupied (occupiedCells s) (dest_key s mv)"
  shows "car_key (fst (executeMove W c mv s)) = dest_key s mv"
    and "car_id (fst (executeMove W c mv s)) = car_id c"
    and "cellOwners (fst (snd (executeMove W c mv s))) =
           AList.update (dest_key s mv) (car_id c) (cellOwners s)"
    and "cars (fst (snd (executeMove W c mv s))) = cars s"
    and "nextCarId (fst (snd (executeMove W c mv s))) = nextCarId s"
    and "deadCarIds (fst (snd (executeMove W c mv s))) = deadCarIds s"
    and "strategyFitness (fst (snd (executeMove W c mv s))) = strategyFitness s"
    and "currentDirection (fst (executeMove W c mv s)) = direction mv"
    and "stuck (fst (executeMove W c mv s)) = stuck c"
  using assms by (simp_all add: executeMove_def dest_key_def Let_def split_def car_key_def)

lemma map_update_same:
  "i < length xs \<Longrightarrow> f y = f (xs ! i) \<Longrightarrow> map f (xs[i := y]) = map f xs"
  by (simp add: map_update list_update_same_conv)

lemma one_owner_cars_cong:
  assumes ids: "map car_id cs = map car_id (cars s)"
    and keys: "map car_key cs = map car_key (cars s)"
  shows "one_owner_per_cell (s\<lparr>cars := cs\<rparr>) = one_owner_per_cell s"
proof -
  have own: "(\<forall>c \<in> set xs. map_of al (car_key c) = Some (car_id c)) \<longleftrightarrow>
             (\<forall>p \<in> set (zip (map car_key xs) (map car_id xs)). map_of al (fst p) = Some (snd p))"
    for xs :: "car list" and al :: "(key \<times> nat) list"
    by (induction xs) auto
  have bound: "(\<forall>c \<in> set xs. car_id c < n) \<longleftrightarrow> (\<forall>d \<in> set (map car_id xs). d < n)"
    for xs :: "car list" and n
    by simp
  have img: "car_id ` set xs = set (map car_id xs)" for xs :: "car list"
    by simp
  have cons: "cells_consistent (s\<lparr>cars := cs\<rparr>) = cells_consistent s"
    by (simp add: cells_consistent_def)
  show ?thesis
    unfolding one_owner_per_cell_def cons own bound img
    by (simp add: ids keys)
qed

lemma execute_entry_one_owner:
  assumes inv: "one_owner_per_cell s" and i: "i < length (cars s)"
  shows "one_owner_per_cell (fst (execute_entry W s i mv))"
proof (cases "occupied (occupiedCells s) (dest_key s mv)")
  case True
  let ?c = "cars s ! i"
  have eq: "fst (execute_entry W s i mv) = s\<lparr>cars := (cars s)[i := ?c\<lparr>stuck := True\<rparr>]\<rparr>"
    by (simp add: execute_entry_def executeMove_refused [OF True])
  have ids: "map car_id ((cars s)[i := ?c\<lparr>stuck := True\<rparr>]) = map car_id (cars s)"
    using i by (simp add: map_update_same)
  have keys: "map car_key ((cars s)[i := ?c\<lparr>stuck := True\<rparr>]) = map car_key (cars s)"
    using i by (simp add: map_update_same car_key_def)
  show ?thesis
    unfolding eq using inv by (simp only: one_owner_cars_cong [OF ids keys])
next
  case False
  let ?c = "cars s ! i"
  let ?k = "dest_key s mv"
  let ?c' = "fst (executeMove W ?c mv s)"
  let ?s' = "fst (snd (executeMove W ?c mv s))"
  note cm = executeMove_committed [OF False, of W ?c]
  have eq: "fst (execute_entry W s i mv) = ?s'\<lparr>cars := (cars s)[i := ?c']\<rparr>"
    by (simp add: execute_entry_def Let_def split_def cm)
  from inv have cons: "cells_consistent s" by (simp add: one_owner_per_cell_def)
  have other: "car_key c \<noteq> ?k" if "c \<in> set (cars s)" for c
  proof
    assume "car_key c = ?k"
    moreover from inv that have "map_of (cellOwners s) (car_key c) = Some (car_id c)"
      by (simp add: one_owner_per_cell_def)
    ultimately have "occupied (occupiedCells s) ?k"
      using owned_is_occupied [OF cons] by simp
    with False show False ..
  qed
  have ids: "map car_id ((cars s)[i := ?c']) = map car_id (cars s)"
    using i by (simp add: map_update_same cm)
  have idset: "car_id ` set ((cars s)[i := ?c']) = car_id ` set (cars s)"
    using ids by (metis set_map)
  have mem: "c = ?c' \<or> c \<in> set (cars s)" if "c \<in> set ((cars s)[i := ?c'])" for c
    using that set_update_subset_insert [of "cars s" i ?c'] by auto
  have ci: "?c \<in> set (cars s)" using i by simp
  show ?thesis
    unfolding eq one_owner_per_cell_def
  proof (intro conjI)
    have "cells_consistent ?s'" using cons by (rule executeMove_consistent)
    then show "cells_consistent (?s'\<lparr>cars := (cars s)[i := ?c']\<rparr>)"
      by (simp add: cells_consistent_def)
    show "distinct (map fst (cellOwners (?s'\<lparr>cars := (cars s)[i := ?c']\<rparr>)))"
      using inv by (simp add: cm one_owner_per_cell_def AList.distinct_update)
    show "\<forall>c\<in>set (cars (?s'\<lparr>cars := (cars s)[i := ?c']\<rparr>)).
            map_of (cellOwners (?s'\<lparr>cars := (cars s)[i := ?c']\<rparr>)) (car_key c) = Some (car_id c)"
    proof
      fix c assume "c \<in> set (cars (?s'\<lparr>cars := (cars s)[i := ?c']\<rparr>))"
      then have "c = ?c' \<or> c \<in> set (cars s)" using mem by simp
      then show "map_of (cellOwners (?s'\<lparr>cars := (cars s)[i := ?c']\<rparr>)) (car_key c) = Some (car_id c)"
      proof
        assume "c = ?c'"
        then show ?thesis by (simp add: cm AList.update_conv')
      next
        assume c: "c \<in> set (cars s)"
        with inv have "map_of (cellOwners s) (car_key c) = Some (car_id c)"
          by (simp add: one_owner_per_cell_def)
        with other [OF c] show ?thesis by (simp add: cm AList.update_conv')
      qed
    qed
    show "distinct (map car_id (cars (?s'\<lparr>cars := (cars s)[i := ?c']\<rparr>)))"
      using inv ids by (simp add: one_owner_per_cell_def)
    show "\<forall>c\<in>set (cars (?s'\<lparr>cars := (cars s)[i := ?c']\<rparr>)).
            car_id c < nextCarId (?s'\<lparr>cars := (cars s)[i := ?c']\<rparr>)"
    proof
      fix c assume "c \<in> set (cars (?s'\<lparr>cars := (cars s)[i := ?c']\<rparr>))"
      then have "car_id c \<in> car_id ` set ((cars s)[i := ?c'])" by simp
      with idset obtain c0 where "c0 \<in> set (cars s)" and "car_id c = car_id c0" by auto
      with inv show "car_id c < nextCarId (?s'\<lparr>cars := (cars s)[i := ?c']\<rparr>)"
        by (simp add: cm one_owner_per_cell_def)
    qed
    show "\<forall>d\<in>fst ` set (deadCarIds (?s'\<lparr>cars := (cars s)[i := ?c']\<rparr>)).
            d < nextCarId (?s'\<lparr>cars := (cars s)[i := ?c']\<rparr>) \<and>
            d \<notin> car_id ` set (cars (?s'\<lparr>cars := (cars s)[i := ?c']\<rparr>))"
      using inv idset by (simp add: cm one_owner_per_cell_def)
  qed
qed

lemma one_owner_dead:
  "one_owner_per_cell s \<Longrightarrow> d \<in> fst ` set (deadCarIds s) \<Longrightarrow>
   d < nextCarId s \<and> d \<notin> car_id ` set (cars s)"
  unfolding one_owner_per_cell_def by blast

lemma one_owner_lines_cong:
  "one_owner_per_cell (s\<lparr>allLines := ls\<rparr>) = one_owner_per_cell s"
  by (simp add: one_owner_per_cell_def cells_consistent_def)

lemma mark_stuck_one_owner:
  assumes inv: "one_owner_per_cell s" and i: "i < length (cars s)"
  shows "one_owner_per_cell (fst (mark_stuck W i s))"
proof -
  let ?c = "cars s ! i"
  let ?cs = "(cars s)[i := ?c\<lparr>stuck := True\<rparr>]"
  have ids: "map car_id ?cs = map car_id (cars s)"
    using i by (simp add: map_update_same)
  have keys: "map car_key ?cs = map car_key (cars s)"
    using i by (simp add: map_update_same car_key_def)
  obtain ls where eq: "fst (mark_stuck W i s) = (s\<lparr>cars := ?cs\<rparr>)\<lparr>allLines := ls\<rparr>"
    by (simp add: mark_stuck_def Let_def split_def)
  show ?thesis
    unfolding eq using inv by (simp only: one_owner_lines_cong one_owner_cars_cong [OF ids keys])
qed

lemma distinct_remove_nth:
  assumes "distinct ys" and "i < length ys"
  shows "distinct (take i ys @ drop (Suc i) ys) \<and> ys ! i \<notin> set (take i ys @ drop (Suc i) ys)"
proof -
  have "ys = take i ys @ ys ! i # drop (Suc i) ys"
    using assms(2) by (rule id_take_nth_drop)
  with assms(1) have "distinct (take i ys @ ys ! i # drop (Suc i) ys)" by simp
  then show ?thesis by auto
qed

lemma set_remove_nth: "set (take i xs @ drop (Suc i) xs) \<subseteq> set xs"
  using set_take_subset [of i xs] set_drop_subset [of "Suc i" xs] by auto

lemma retire_fields:
  "cars (fst (retire W i s)) = take i (cars s) @ drop (Suc i) (cars s)"
  "fst ` set (deadCarIds (fst (retire W i s))) = insert (car_id (cars s ! i)) (fst ` set (deadCarIds s))"
  "cellOwners (fst (retire W i s)) = cellOwners s"
  "occupiedCells (fst (retire W i s)) = occupiedCells s"
  "cellTimestamps (fst (retire W i s)) = cellTimestamps s"
  "nextCarId (fst (retire W i s)) = nextCarId s"
  "allLines (fst (retire W i s)) = allLines s"
  by (simp_all add: retire_def Let_def split_def keys_update)

lemma retire_one_owner:
  assumes inv: "one_owner_per_cell s" and i: "i < length (cars s)"
  shows "one_owner_per_cell (fst (retire W i s))"
proof -
  let ?rest = "take i (cars s) @ drop (Suc i) (cars s)"
  have sub: "set ?rest \<subseteq> set (cars s)" by (rule set_remove_nth)
  from inv have d: "distinct (map car_id (cars s))" by (simp add: one_owner_per_cell_def)
  have ids: "map car_id ?rest = take i (map car_id (cars s)) @ drop (Suc i) (map car_id (cars s))"
    by (simp add: take_map drop_map)
  from distinct_remove_nth [OF d, of i] i
  have d': "distinct (map car_id ?rest)" and fresh: "car_id (cars s ! i) \<notin> car_id ` set ?rest"
    by (simp_all add: ids [symmetric] del: map_append)
  have ci: "cars s ! i \<in> set (cars s)" using i by simp
  show ?thesis
    unfolding one_owner_per_cell_def retire_fields
  proof (intro conjI)
    from inv show "cells_consistent (fst (retire W i s))"
      by (simp add: one_owner_per_cell_def cells_consistent_def retire_fields)
    from inv show "distinct (map fst (cellOwners s))" by (simp add: one_owner_per_cell_def)
    from inv sub show "\<forall>c\<in>set ?rest. map_of (cellOwners s) (car_key c) = Some (car_id c)"
      by (auto simp: one_owner_per_cell_def)
    from d' show "distinct (map car_id ?rest)" .
    from inv sub show "\<forall>c\<in>set ?rest. car_id c < nextCarId s"
      by (auto simp: one_owner_per_cell_def)
    show "\<forall>d\<in>insert (car_id (cars s ! i)) (fst ` set (deadCarIds s)).
            d < nextCarId s \<and> d \<notin> car_id ` set ?rest"
    proof
      fix d assume "d \<in> insert (car_id (cars s ! i)) (fst ` set (deadCarIds s))"
      then consider "d = car_id (cars s ! i)" | "d \<in> fst ` set (deadCarIds s)" by auto
      then show "d < nextCarId s \<and> d \<notin> car_id ` set ?rest"
      proof cases
        case 1
        with inv ci fresh show ?thesis by (simp add: one_owner_per_cell_def)
      next
        case 2
        from one_owner_dead [OF inv 2] have "d < nextCarId s" and "d \<notin> car_id ` set (cars s)"
          by simp_all
        with sub show ?thesis by auto
      qed
    qed
  qed
qed

lemma removeCarTraces_one_owner:
  assumes inv: "one_owner_per_cell s" and dead: "cid \<in> fst ` set (deadCarIds s)"
  shows "one_owner_per_cell (removeCarTraces cid s)"
proof -
  let ?ks = "filter (\<lambda>k. map_of (cellOwners s) k = Some cid) (map fst (cellOwners s))"
  from one_owner_dead [OF inv dead] have notlive: "cid \<notin> car_id ` set (cars s)"
    by simp
  have flds: "cars (removeCarTraces cid s) = cars s"
    "nextCarId (removeCarTraces cid s) = nextCarId s"
    "cellOwners (removeCarTraces cid s) = delete_keys ?ks (cellOwners s)"
    "deadCarIds (removeCarTraces cid s) = AList.delete cid (deadCarIds s)"
    by (simp_all add: removeCarTraces_def Let_def)
  show ?thesis
    unfolding one_owner_per_cell_def flds
  proof (intro conjI)
    from inv show "cells_consistent (removeCarTraces cid s)"
      by (simp add: one_owner_per_cell_def removeCarTraces_consistent)
    from inv show "distinct (map fst (delete_keys ?ks (cellOwners s)))"
      by (simp add: one_owner_per_cell_def distinct_delete_keys)
    show "\<forall>c\<in>set (cars s). map_of (delete_keys ?ks (cellOwners s)) (car_key c) = Some (car_id c)"
    proof
      fix c assume c: "c \<in> set (cars s)"
      with inv have own: "map_of (cellOwners s) (car_key c) = Some (car_id c)"
        by (simp add: one_owner_per_cell_def)
      from c notlive have "car_id c \<noteq> cid" by auto
      with own have "car_key c \<notin> set ?ks" by simp
      with own show "map_of (delete_keys ?ks (cellOwners s)) (car_key c) = Some (car_id c)"
        by (simp add: map_of_delete_keys)
    qed
    from inv show "distinct (map car_id (cars s))" by (simp add: one_owner_per_cell_def)
    from inv show "\<forall>c\<in>set (cars s). car_id c < nextCarId s" by (simp add: one_owner_per_cell_def)
    show "\<forall>d\<in>fst ` set (AList.delete cid (deadCarIds s)). d < nextCarId s \<and> d \<notin> car_id ` set (cars s)"
    proof
      fix d assume "d \<in> fst ` set (AList.delete cid (deadCarIds s))"
      with AList.dom_delete_subset [of cid "deadCarIds s"] have "d \<in> fst ` set (deadCarIds s)" by blast
      then show "d < nextCarId s \<and> d \<notin> car_id ` set (cars s)"
        by (rule one_owner_dead [OF inv])
    qed
  qed
qed

lemma clearFadedCells_one_owner:
  assumes inv: "one_owner_per_cell s"
  shows "one_owner_per_cell (clearFadedCells now (map car_id (cars s)) s)"
proof -
  let ?alive = "map car_id (cars s)"
  let ?ks = "filter (fully_faded s now ?alive) (map fst (cellTimestamps s))"
  let ?s' = "clearFadedCells now ?alive s"
  have cars: "cars ?s' = cars s" and nxt: "nextCarId ?s' = nextCarId s"
    by (simp_all add: clearFadedCells_def Let_def)
  have owners: "cellOwners ?s' = cellOwners s \<or> cellOwners ?s' = delete_keys ?ks (cellOwners s)"
    by (simp add: clearFadedCells_def Let_def)
  have dead: "fst ` set (deadCarIds ?s') \<subseteq> fst ` set (deadCarIds s)"
    by (auto simp: clearFadedCells_def Let_def keys_delete_keys)
  have keep: "map_of (delete_keys ?ks (cellOwners s)) (car_key c) = Some (car_id c)"
    if c: "c \<in> set (cars s)" for c
  proof -
    from inv c have own: "map_of (cellOwners s) (car_key c) = Some (car_id c)"
      by (simp add: one_owner_per_cell_def)
    with c have "\<not> fully_faded s now ?alive (car_key c)"
      by (simp add: fully_faded_def)
    then have "car_key c \<notin> set ?ks" by simp
    with own show ?thesis by (simp add: map_of_delete_keys)
  qed
  show ?thesis
    unfolding one_owner_per_cell_def cars nxt
  proof (intro conjI)
    from inv show "cells_consistent ?s'"
      by (simp add: one_owner_per_cell_def clearFadedCells_consistent)
    from inv owners show "distinct (map fst (cellOwners ?s'))"
      by (auto simp: one_owner_per_cell_def distinct_delete_keys)
    from inv owners keep show "\<forall>c\<in>set (cars s). map_of (cellOwners ?s') (car_key c) = Some (car_id c)"
      by (auto simp: one_owner_per_cell_def)
    from inv show "distinct (map car_id (cars s))" by (simp add: one_owner_per_cell_def)
    from inv show "\<forall>c\<in>set (cars s). car_id c < nextCarId s" by (simp add: one_owner_per_cell_def)
    show "\<forall>d\<in>fst ` set (deadCarIds ?s'). d < nextCarId s \<and> d \<notin> car_id ` set (cars s)"
    proof
      fix d assume "d \<in> fst ` set (deadCarIds ?s')"
      with dead have "d \<in> fst ` set (deadCarIds s)" by blast
      then show "d < nextCarId s \<and> d \<notin> car_id ` set (cars s)"
        by (rule one_owner_dead [OF inv])
    qed
  qed
qed

lemma one_owner_tick: "tick_invariant (\<lambda>q. one_owner_per_cell (fst q))"
proof (rule board_invariantI)
  show "one_owner_per_cell (s\<lparr>lastStepTime := t\<rparr>)" if "one_owner_per_cell s" for s t
    using that by (simp add: one_owner_per_cell_def cells_consistent_def)
  show "one_owner_per_cell (s\<lparr>lastSpawnTime := t\<rparr>)" if "one_owner_per_cell s" for s t
    using that by (simp add: one_owner_per_cell_def cells_consistent_def)
qed (simp_all add: place_car_one_owner execute_entry_one_owner mark_stuck_one_owner
      retire_one_owner removeCarTraces_one_owner clearFadedCells_one_owner)

lemma one_owner_distinct_cells:
  assumes "one_owner_per_cell s"
  shows "distinct (map car_key (cars s))"
proof -
  from assms have d: "distinct (map car_id (cars s))"
    and own: "\<forall>c \<in> set (cars s). map_of (cellOwners s) (car_key c) = Some (car_id c)"
    by (simp_all add: one_owner_per_cell_def)
  have "inj_on car_key (set (cars s))"
  proof (rule inj_onI)
    fix a b assume a: "a \<in> set (cars s)" and b: "b \<in> set (cars s)" and k: "car_key a = car_key b"
    with own have "car_id a = car_id b" by (metis option.inject)
    with d a b show "a = b" by (meson distinct_map inj_onD)
  qed
  moreover from d have "distinct (cars s)" by (simp add: distinct_map)
  ultimately show ?thesis by (simp add: distinct_map)
qed

subsection \<open>Directions stay in range, and the tick returns\<close>

lemma Math_random_range: "0 \<le> fst (Math_random W) \<and> fst (Math_random W) < 1"
  using Rep_unit_interval [of "rands W 0"] by (simp add: Math_random_def)

lemma random_index: "nat \<lfloor>fst (Math_random W) * (real n + 1)\<rfloor> \<le> n"
proof -
  let ?r = "fst (Math_random W)"
  from Math_random_range [of W] have "?r * (real n + 1) < 1 * (real n + 1)"
    by (intro mult_strict_right_mono) simp_all
  then have "?r * (real n + 1) < real_of_int (int n + 1)" by simp
  then have "\<lfloor>?r * (real n + 1)\<rfloor> < int n + 1" by (simp only: floor_less_iff)
  then show ?thesis by linarith
qed

lemma shuffle_mset:
  "n < length ps \<Longrightarrow> mset (fst (shuffle W n ps)) = mset ps"
proof (induction n arbitrary: W ps)
  case 0
  then show ?case by simp
next
  case (Suc n)
  let ?j = "nat \<lfloor>fst (Math_random W) * (real (Suc n) + 1)\<rfloor>"
  let ?ps = "ps[Suc n := ps ! ?j, ?j := ps ! Suc n]"
  from random_index [of W "Suc n"] Suc.prems have j: "?j < length ps" by linarith
  have "mset ?ps = mset ps"
    using mset_swap [OF j Suc.prems] .
  moreover have "n < length ?ps" using Suc.prems by simp
  ultimately show ?case
    using Suc.IH [of ?ps "snd (Math_random W)"] by (simp add: Let_def split_def)
qed

lemma js_rem_6: "0 \<le> a \<Longrightarrow> js_rem a 6 = a mod 6"
  by (simp add: js_rem_def)

lemma priorities_range:
  assumes "0 \<le> currentDirection c" and "currentDirection c < 6"
  shows "\<forall>d \<in> set (fst (priorities_of W c)). 0 \<le> d \<and> d < 6"
proof (cases "car_strategy c")
  case Explorer
  let ?ps = "map (\<lambda>i. js_rem (currentDirection c + i) 6) [0, 1, 2, 3, 4, 5]"
  have "mset (fst (shuffle W 5 ?ps)) = mset ?ps"
    by (rule shuffle_mset) simp
  then have "set (fst (shuffle W 5 ?ps)) = set ?ps"
    by (rule mset_eq_setD)
  moreover have "\<forall>d \<in> set ?ps. 0 \<le> d \<and> d < 6"
    using assms by (simp add: js_rem_6)
  ultimately show ?thesis
    using Explorer by (simp add: priorities_of_def Let_def)
qed (use assms in \<open>simp_all add: priorities_of_def Let_def split_def js_rem_6\<close>)

lemma tryDirection_returns:
  "0 \<le> d \<Longrightarrow> d < 6 \<Longrightarrow> \<exists>r. tryDirection c d cells cw ch ls = Inr r"
  by (simp add: tryDirection_def Let_def split_def)

lemma try_priorities_returns:
  "\<forall>d \<in> set ps. 0 \<le> d \<and> d < 6 \<Longrightarrow> \<exists>r. try_priorities s c ps = Inr r"
proof (induction ps)
  case Nil
  then show ?case by simp
next
  case (Cons d ps)
  from Cons.prems have "0 \<le> d" and "d < 6" by simp_all
  from tryDirection_returns [OF this]
  obtain r where "tryDirection c d (occupiedCells s) (canvasWidth s) (canvasHeight s) (allLines s) = Inr r"
    by blast
  with Cons show ?case
    by (cases r) (auto simp: scoreMove_def Let_def)
qed

lemma calculateMove_returns:
  assumes "0 \<le> currentDirection c" and "currentDirection c < 6"
  shows "\<exists>r. fst (calculateMove W s c) = Inr r"
  using try_priorities_returns [OF priorities_range [OF assms]]
  by (simp add: calculateMove_def Let_def split_def)

lemma phase1_returns:
  "\<forall>c \<in> set cs. 0 \<le> currentDirection c \<and> currentDirection c < 6 \<Longrightarrow>
   \<exists>r. phase1 W s i cs = Inr r"
proof (induction cs arbitrary: W i)
  case Nil
  then show ?case by simp
next
  case (Cons c cs)
  show ?case
  proof (cases "stuck c")
    case True
    with Cons show ?thesis by simp
  next
    case False
    obtain r W1 where cm: "calculateMove W s c = (r, W1)" by (cases "calculateMove W s c")
    from Cons.prems calculateMove_returns [of c W s] cm obtain m where r: "r = Inr m"
      by auto
    from Cons.prems have "\<forall>c \<in> set cs. 0 \<le> currentDirection c \<and> currentDirection c < 6"
      by simp
    from Cons.IH [OF this, of W1 "Suc i"] obtain es W2 where "phase1 W1 s (Suc i) cs = Inr (es, W2)"
      by auto
    with False cm r show ?thesis by simp
  qed
qed

lemma draw_returns:
  assumes "dirs_ok s"
  shows "\<exists>r. draw W s = Inr r"
proof -
  let ?now = "fst (Date_now W)"
  let ?s1 = "clearFadedCells ?now (map car_id (cars s)) s"
  let ?s2 = "?s1\<lparr>lastStepTime := ?now\<rparr>"
  have "cars ?s2 = cars s" by (simp add: clearFadedCells_def Let_def)
  with assms have "\<forall>c \<in> set (cars ?s2). 0 \<le> currentDirection c \<and> currentDirection c < 6"
    by (simp add: dirs_ok_def)
  from phase1_returns [OF this, of "render (allLines s) (snd (Date_now W))" ?s2 0]
  obtain r where "phase1 (render (allLines s) (snd (Date_now W))) ?s2 0 (cars ?s2) = Inr r" by auto
  then show ?thesis
    by (cases r) (simp add: draw_def Let_def split_def)
qed

lemma Car_direction:
  "0 \<le> currentDirection (fst (Car W px py cw ch hs strat cid)) \<and>
   currentDirection (fst (Car W px py cw ch hs strat cid)) < 6"
proof -
  let ?W3 = "snd (Math_random (getColor (snd (Math_random (snd (Date_now W))))))"
  from Math_random_range [of ?W3]
  have "0 \<le> fst (Math_random ?W3) * 6" and "fst (Math_random ?W3) * 6 < 6" by simp_all
  then have "0 \<le> \<lfloor>fst (Math_random ?W3) * 6\<rfloor>" and "\<lfloor>fst (Math_random ?W3) * 6\<rfloor> < 6"
    by (simp_all add: floor_less_iff)
  then show ?thesis by (simp add: Car_def Let_def split_def)
qed

lemma dirs_ok_cong:
  assumes "map currentDirection cs = map currentDirection (cars s)"
  shows "dirs_ok (s\<lparr>cars := cs\<rparr>) = dirs_ok s"
proof -
  have a: "dirs_ok (s\<lparr>cars := cs\<rparr>) \<longleftrightarrow> (\<forall>d \<in> set (map currentDirection cs). 0 \<le> d \<and> d < 6)"
    by (simp add: dirs_ok_def)
  have b: "dirs_ok s \<longleftrightarrow> (\<forall>d \<in> set (map currentDirection (cars s)). 0 \<le> d \<and> d < 6)"
    by (simp add: dirs_ok_def)
  show ?thesis unfolding a b assms ..
qed

lemma dirs_ok_stuck:
  assumes "dirs_ok s" and "i < length (cars s)"
  shows "dirs_ok (s\<lparr>cars := (cars s)[i := (cars s ! i)\<lparr>stuck := True\<rparr>]\<rparr>)"
proof -
  have "map currentDirection ((cars s)[i := (cars s ! i)\<lparr>stuck := True\<rparr>]) = map currentDirection (cars s)"
    using assms(2) by (simp add: map_update_same)
  from dirs_ok_cong [OF this] assms(1) show ?thesis by simp
qed

lemma dirs_ok_tick: "tick_invariant (\<lambda>q. dirs_ok (fst q))"
proof (rule board_invariantI)
  show "dirs_ok (fst (place_car W strat gx gy s))" if "dirs_ok s" for s W strat gx gy
    using that Car_direction by (auto simp: dirs_ok_def place_car_fields)
  show "dirs_ok (fst (execute_entry W s i mv))"
    if "dirs_ok s" and "i < length (cars s)" and "0 \<le> direction mv" and "direction mv < 6"
    for s W i mv
  proof (cases "occupied (occupiedCells s) (dest_key s mv)")
    case True
    have "fst (execute_entry W s i mv) = s\<lparr>cars := (cars s)[i := (cars s ! i)\<lparr>stuck := True\<rparr>]\<rparr>"
      by (simp add: execute_entry_def executeMove_refused [OF True])
    with dirs_ok_stuck [OF that(1,2)] show ?thesis by simp
  next
    case False
    note cm = executeMove_committed [OF False, of W "cars s ! i"]
    have eq: "cars (fst (execute_entry W s i mv)) = (cars s)[i := fst (executeMove W (cars s ! i) mv s)]"
      by (simp add: execute_entry_def Let_def split_def cm)
    show ?thesis
      unfolding dirs_ok_def eq
    proof
      fix c assume "c \<in> set ((cars s)[i := fst (executeMove W (cars s ! i) mv s)])"
      then have "c = fst (executeMove W (cars s ! i) mv s) \<or> c \<in> set (cars s)"
        using set_update_subset_insert [of "cars s" i] by auto
      with that cm show "0 \<le> currentDirection c \<and> currentDirection c < 6"
        by (auto simp: dirs_ok_def)
    qed
  qed
  show "dirs_ok (fst (mark_stuck W i s))" if "dirs_ok s" and "i < length (cars s)" for s W i
  proof -
    have "dirs_ok (t\<lparr>allLines := ls\<rparr>) = dirs_ok t" for t ls
      by (simp add: dirs_ok_def)
    with dirs_ok_stuck [OF that] show ?thesis
      by (simp add: mark_stuck_def Let_def split_def)
  qed
  show "dirs_ok (fst (retire W i s))" if "dirs_ok s" for s W i
    using that set_remove_nth [of i "cars s"] by (auto simp: dirs_ok_def retire_fields)
  show "dirs_ok (removeCarTraces cid s)" if "dirs_ok s" for s cid
    using that by (simp add: dirs_ok_def removeCarTraces_def Let_def)
  show "dirs_ok (clearFadedCells now (map car_id (cars s)) s)" if "dirs_ok s" for s now
    using that by (simp add: dirs_ok_def clearFadedCells_def Let_def)
  show "dirs_ok (s\<lparr>lastStepTime := t\<rparr>)" if "dirs_ok s" for s t
    using that by (simp add: dirs_ok_def)
  show "dirs_ok (s\<lparr>lastSpawnTime := t\<rparr>)" if "dirs_ok s" for s t
    using that by (simp add: dirs_ok_def)
qed

subsection \<open>Ownership is never taken over\<close>

lemma claim_keeps_owner:
  assumes "cells_consistent s" and "\<not> occupied (occupiedCells s) k0"
    and "map_of (cellOwners s) k = Some a"
  shows "map_of (AList.update k0 b (cellOwners s)) k = Some a"
proof -
  from owned_is_occupied [OF assms(1,3)] assms(2) have "k \<noteq> k0" by auto
  with assms(3) show ?thesis by (simp add: AList.update_conv')
qed

lemma executeMove_keeps_owner:
  assumes "cells_consistent s" and "map_of (cellOwners s) k = Some a"
  shows "map_of (cellOwners (fst (snd (executeMove W c mv s)))) k = Some a"
proof (cases "occupied (occupiedCells s) (dest_key s mv)")
  case True
  with assms(2) show ?thesis by (simp add: executeMove_refused)
next
  case False
  with assms show ?thesis
    by (simp add: executeMove_committed claim_keeps_owner)
qed

lemma spawnCar_keeps_owner:
  assumes "cells_consistent s" and "map_of (cellOwners s) k = Some a"
  shows "map_of (cellOwners (fst (snd (spawnCar W s)))) k = Some a"
proof -
  obtain ok s' W' where sp: "spawnCar W s = (ok, s', W')" by (cases "spawnCar W s")
  from spawnCar_cases [OF sp] show ?thesis
  proof (elim disjE conjE exE)
    assume "s' = s"
    with assms(2) sp show ?thesis by simp
  next
    fix W'' strat gx gy
    assume free: "\<not> occupied (occupiedCells s) (getHexKey gx gy)"
      and eq: "(s', W') = place_car W'' strat gx gy s"
    from eq have "s' = fst (place_car W'' strat gx gy s)" by (metis fst_conv)
    with assms free sp show ?thesis
      by (simp add: place_car_fields claim_keeps_owner)
  qed
qed

lemma spawnCar_on_free_cell:
  assumes "fst (spawnCar W s)"
  shows "\<exists>c. cars (fst (snd (spawnCar W s))) = cars s @ [c] \<and>
             \<not> occupied (occupiedCells s) (car_key c)"
proof -
  obtain ok s' W' where sp: "spawnCar W s = (ok, s', W')" by (cases "spawnCar W s")
  with assms have ok by simp
  with spawnCar_cases [OF sp] obtain W'' strat gx gy where
    free: "\<not> occupied (occupiedCells s) (getHexKey gx gy)"
    and eq: "(s', W') = place_car W'' strat gx gy s"
    by auto
  from eq have s': "s' = fst (place_car W'' strat gx gy s)" by (metis fst_conv)
  let ?c = "fst (Car W'' gx gy (canvasWidth s) (canvasHeight s) (hexSize s) strat (nextCarId s))"
  have "car_key ?c = getHexKey gx gy" by (simp add: car_key_def Car_fields)
  with free s' sp show ?thesis
    by (intro exI [of _ ?c]) (simp add: place_car_fields)
qed

lemma one_owner_fresh: "one_owner_per_cell (setup_canvas iw ih (CircuitBoard opts))"
  "one_owner_per_cell (CircuitBoard opts)"
  by (simp_all add: one_owner_per_cell_def cells_consistent_def CircuitBoard_def setup_canvas_def)

lemma dirs_ok_fresh: "dirs_ok (setup_canvas iw ih (CircuitBoard opts))"
  by (simp add: dirs_ok_def CircuitBoard_def setup_canvas_def)

lemma init_cases:
  "init W iw ih s =
     (if spawnDelay s = 0 \<and> maxCars s = PlusInfinity then None
      else Some (draw (snd (the (if spawnDelay s = 0 then spawn_loop 0 W (setup_canvas iw ih s)
                                 else Some (setup_canvas iw ih s, W))))
                      (fst (the (if spawnDelay s = 0 then spawn_loop 0 W (setup_canvas iw ih s)
                                 else Some (setup_canvas iw ih s, W))))))"
proof (cases "spawnDelay s = 0")
  case False
  then show ?thesis by (simp add: init_def setup_canvas_def)
next
  case True
  show ?thesis
  proof (cases "maxCars s = PlusInfinity")
    case inf: True
    then have "spawn_loop 0 W (setup_canvas iw ih s) = None"
      by (intro spawn_loop_infinite) (simp add: setup_canvas_def)
    with True inf show ?thesis by (simp add: init_def setup_canvas_def)
  next
    case False
    then have "maxCars (setup_canvas iw ih s) \<noteq> PlusInfinity" by (simp add: setup_canvas_def)
    from spawn_loop_returns [OF this, of 0 W] obtain r
      where "spawn_loop 0 W (setup_canvas iw ih s) = Some r" by blast
    with True False show ?thesis by (simp add: init_def setup_canvas_def split_def)
  qed
qed

lemma init_never_fails: "init W iw ih (CircuitBoard opts) \<noteq> Some (Inl e)"
proof
  assume a: "init W iw ih (CircuitBoard opts) = Some (Inl e)"
  let ?s1 = "setup_canvas iw ih (CircuitBoard opts)"
  from a obtain s2 W2 where sm: "(if spawnDelay ?s1 = 0 then spawn_loop 0 W ?s1 else Some (?s1, W)) = Some (s2, W2)"
    and d: "draw W2 s2 = Inl e"
    by (auto simp: init_def Let_def split: option.splits)
  have "dirs_ok (fst (s2, W2))"
    using sm dirs_ok_fresh [of iw ih opts]
      spawn_loop_invariant [OF tick_invariant_step [OF dirs_ok_tick], of ?s1 W 0 "(s2, W2)"]
    by (auto split: if_splits)
  then have "dirs_ok s2" by simp
  from draw_returns [OF this, of W2] d show False by simp
qed

lemma init_returns:
  assumes "spawnDelay (CircuitBoard opts) \<noteq> 0 \<or> maxCars (CircuitBoard opts) \<noteq> PlusInfinity"
  shows "\<exists>r. init W iw ih (CircuitBoard opts) = Some (Inr r)"
proof -
  from assms init_cases [of W iw ih "CircuitBoard opts"]
  obtain x where x: "init W iw ih (CircuitBoard opts) = Some x" by auto
  with init_never_fails [of W iw ih opts] show ?thesis by (cases x) auto
qed

lemma init_diverges:
  "spawnDelay (CircuitBoard opts) = 0 \<Longrightarrow> maxCars (CircuitBoard opts) = PlusInfinity \<Longrightarrow>
   init W iw ih (CircuitBoard opts) = None"
  by (simp add: init_cases)

lemma facing_cars_one_owner: "one_owner_per_cell facing_cars"
  by (simp add: one_owner_per_cell_def cells_consistent_def facing_cars_def fresh_board_def
      setup_canvas_def CircuitBoard_def default_options_def wanderer_at_def car_key_def
      getHexKey_def Math_round_def)

lemma facing_cars_dirs: "dirs_ok facing_cars"
  by (simp add: dirs_ok_def facing_cars_def wanderer_at_def)

lemma cells_consistent_fresh: "cells_consistent (setup_canvas iw ih (CircuitBoard opts))"
  "cells_consistent (CircuitBoard opts)"
  by (simp_all add: cells_consistent_def CircuitBoard_def setup_canvas_def)

lemma one_alive_one_dead_consistent: "cells_consistent one_alive_one_dead"
  by (simp add: cells_consistent_def one_alive_one_dead_def)

lemma one_alive_one_dead_dirs: "dirs_ok one_alive_one_dead"
  by (simp add: dirs_ok_def one_alive_one_dead_def wanderer_at_def)


subsection \<open>Fitness\<close>

lemma retire_fitness:
  "strategyFitness (fst (retire W i s)) strat =
     (if strat = car_strategy (cars s ! i)
      then record_fitness ((times W 0 - birthTime (cars s ! i)) / 1000) (cars s ! i)
             (strategyFitness s strat)
      else strategyFitness s strat)"
  by (simp add: retire_def Let_def split_def Date_now_def)

lemma fitness_step: "step_invariant (\<lambda>q. strategyFitness (fst q) = F)"
  by (rule board_step_invariantI)
    (simp_all add: place_car_def execute_entry_def executeMove_def mark_stuck_def
      removeCarTraces_def clearFadedCells_def Let_def split_def)

lemma phase4_totals:
  "n \<le> length (cars s) \<Longrightarrow>
   count_fit (strategyFitness (fst (phase4 n W s)) strat) =
     count_fit (strategyFitness s strat) + int (length (retiring strat n s)) \<and>
   totalCells (strategyFitness (fst (phase4 n W s)) strat) =
     totalCells (strategyFitness s strat) + sum_list (map cellsVisited (retiring strat n s)) \<and>
   totalDistance (strategyFitness (fst (phase4 n W s)) strat) =
     totalDistance (strategyFitness s strat) + sum_list (map distanceTraveled (retiring strat n s)) \<and>
   cars (fst (phase4 n W s)) = filter (\<lambda>c. \<not> stuck c) (take n (cars s)) @ drop n (cars s)"
proof (induction n arbitrary: s W)
  case 0
  then show ?case by (simp add: retiring_def)
next
  case (Suc n)
  let ?c = "cars s ! n"
  from Suc.prems have n: "n < length (cars s)" by simp
  have tk: "take (Suc n) (cars s) = take n (cars s) @ [?c]"
    using n by (rule take_Suc_conv_app_nth)
  have dr: "drop n (cars s) = ?c # drop (Suc n) (cars s)"
    using n by (rule Cons_nth_drop_Suc [symmetric])
  show ?case
  proof (cases "stuck ?c")
    case False
    from Suc.IH [of s W] n False show ?thesis
      by (simp add: retiring_def tk dr)
  next
    case True
    let ?s1 = "fst (retire W n s)"
    let ?W1 = "snd (retire W n s)"
    have cs1: "cars ?s1 = take n (cars s) @ drop (Suc n) (cars s)"
      by (simp add: retire_fields)
    with n have len: "n \<le> length (cars ?s1)" by simp
    from cs1 n have tk1: "take n (cars ?s1) = take n (cars s)" by simp
    from cs1 n have dr1: "drop n (cars ?s1) = drop (Suc n) (cars s)" by simp
    have ret1: "retiring strat n ?s1 = retiring strat n s"
      by (simp add: retiring_def tk1)
    have ret: "retiring strat (Suc n) s =
        retiring strat n s @ (if car_strategy ?c = strat then [?c] else [])"
      using True by (simp add: retiring_def tk)
    have p4: "phase4 (Suc n) W s = phase4 n ?W1 ?s1"
      using True by (simp add: Let_def split_def)
    from Suc.IH [OF len, of ?W1] show ?thesis
      unfolding p4 ret1 tk1 dr1
      by (auto simp: ret retire_fitness record_fitness_def tk True)
  qed
qed

lemma fitness_le_refl: "fitness_le f f"
  by (simp add: fitness_le_def)

lemma fitness_le_trans: "fitness_le f g \<Longrightarrow> fitness_le g h \<Longrightarrow> fitness_le f h"
  by (auto simp: fitness_le_def)

lemma record_fitness_le:
  "0 \<le> l \<Longrightarrow> 0 \<le> distanceTraveled c \<Longrightarrow> 0 \<le> cellsVisited c \<Longrightarrow>
   fitness_le f (record_fitness l c f)"
  by (simp add: fitness_le_def record_fitness_def)

lemma stats_ok_later:
  assumes "stats_ok s W" and "later W W'"
  shows "stats_ok s W'"
  using assms(2,1)
proof (induction rule: later.induct)
  case (later_refl W)
  then show ?case .
next
  case (later_random W W')
  then show ?case by (simp add: stats_ok_def Math_random_def)
next
  case (later_now W W')
  then have "stats_ok s W'" by simp
  then show ?case by (simp add: stats_ok_def Date_now_def)
qed

lemma stats_ok_cars:
  assumes "stats_ok s W"
    and "\<forall>c \<in> set cs. 0 \<le> distanceTraveled c \<and> 0 \<le> cellsVisited c \<and> (\<forall>n. birthTime c \<le> times W n)"
  shows "stats_ok (s\<lparr>cars := cs\<rparr>) W"
  using assms by (simp add: stats_ok_def)

lemma tick_invariantI:
  assumes "\<And>s W. Q (s, W) \<Longrightarrow> Q (s, snd (Math_random W))"
    and "\<And>s W. Q (s, W) \<Longrightarrow> Q (s, snd (Date_now W))"
    and "\<And>s W strat gx gy. Q (s, W) \<Longrightarrow> \<not> occupied (occupiedCells s) (getHexKey gx gy) \<Longrightarrow>
           Q (place_car W strat gx gy s)"
    and "\<And>s W i mv. Q (s, W) \<Longrightarrow> i < length (cars s) \<Longrightarrow> Q (execute_entry W s i mv)"
    and "\<And>s W i. Q (s, W) \<Longrightarrow> i < length (cars s) \<Longrightarrow> Q (mark_stuck W i s)"
    and "\<And>s W i. Q (s, W) \<Longrightarrow> i < length (cars s) \<Longrightarrow> Q (retire W i s)"
    and "\<And>s W cid. Q (s, W) \<Longrightarrow> Q (removeCarTraces cid s, W)"
    and "\<And>s W now. Q (s, W) \<Longrightarrow> Q (clearFadedCells now (map car_id (cars s)) s, W)"
    and "\<And>s W t. Q (s, W) \<Longrightarrow> Q (s\<lparr>lastStepTime := t\<rparr>, W)"
    and "\<And>s W t. Q (s, W) \<Longrightarrow> Q (s\<lparr>lastSpawnTime := t\<rparr>, W)"
  shows "tick_invariant Q"
  unfolding tick_invariant_def step_invariant_def
proof (intro conjI)
  show "\<forall>s W. Q (s, W) \<longrightarrow> Q (s, snd (Math_random W)) \<and> Q (s, snd (Date_now W))"
    using assms(1,2) by simp
  show "\<forall>s W strat gx gy. Q (s, W) \<and> \<not> occupied (occupiedCells s) (getHexKey gx gy) \<longrightarrow>
          Q (place_car W strat gx gy s)"
    using assms(3) by simp
  show "\<forall>s W i mv. Q (s, W) \<and> i < length (cars s) \<and> 0 \<le> direction mv \<and> direction mv < 6 \<longrightarrow>
          Q (execute_entry W s i mv)"
    using assms(4) by simp
  show "\<forall>s W i. Q (s, W) \<and> i < length (cars s) \<longrightarrow> Q (mark_stuck W i s)"
    using assms(5) by simp
  show "\<forall>s W cid. Q (s, W) \<and> cid \<in> fst ` set (deadCarIds s) \<longrightarrow> Q (removeCarTraces cid s, W)"
    using assms(7) by simp
  show "\<forall>s W now. Q (s, W) \<longrightarrow> Q (clearFadedCells now (map car_id (cars s)) s, W)"
    using assms(8) by simp
  show "\<forall>s W t. Q (s, W) \<longrightarrow> Q (s\<lparr>lastStepTime := t\<rparr>, W) \<and> Q (s\<lparr>lastSpawnTime := t\<rparr>, W)"
    using assms(9,10) by simp
  show "\<forall>s W i. Q (s, W) \<and> i < length (cars s) \<and> stuck (cars s ! i) \<longrightarrow> Q (retire W i s)"
    using assms(6) by simp
qed

lemma stats_ok_tick:
  "tick_invariant (\<lambda>q. stats_ok (fst q) (snd q) \<and> (\<forall>strat. fitness_le (F strat) (strategyFitness (fst q) strat)))"
  (is "tick_invariant ?Q")
proof (rule tick_invariantI)
  fix s W assume "?Q (s, W)"
  then show "?Q (s, snd (Math_random W))"
    using stats_ok_later [OF _ later_random', of s W] by simp
next
  fix s W assume "?Q (s, W)"
  then show "?Q (s, snd (Date_now W))"
    using stats_ok_later [OF _ later_now', of s W] by simp
next
  fix s W strat gx gy
  assume a: "?Q (s, W)"
  let ?c = "fst (Car W gx gy (canvasWidth s) (canvasHeight s) (hexSize s) strat (nextCarId s))"
  let ?W' = "snd (place_car W strat gx gy s)"
  have l: "later W ?W'" by (rule later_place_car)
  from a have ok: "stats_ok s W" by simp
  then have ok': "stats_ok s ?W'" using l by (rule stats_ok_later)
  have tm: "times ?W' n = times W (Suc (Suc (Suc (Suc n))))" for n
    by (simp add: place_car_def Car_def getColor_def Let_def split_def Date_now_def Math_random_def)
  from ok have mono: "times W 0 \<le> times W (Suc (Suc (Suc (Suc n))))" for n
    by (simp add: stats_ok_def)
  have "stats_ok (fst (place_car W strat gx gy s)) ?W'"
    using ok' mono unfolding stats_ok_def
    by (auto simp: place_car_fields Car_fields tm)
  with a show "?Q (place_car W strat gx gy s)"
    by (simp add: place_car_fields)
next
  fix s W i mv
  assume a: "?Q (s, W)" and i: "i < length (cars s)"
  then have ok: "stats_ok s W" by simp
  let ?c = "cars s ! i"
  from i have ci: "?c \<in> set (cars s)" by simp
  show "?Q (execute_entry W s i mv)"
  proof (cases "occupied (occupiedCells s) (dest_key s mv)")
    case True
    have eq: "execute_entry W s i mv = (s\<lparr>cars := (cars s)[i := ?c\<lparr>stuck := True\<rparr>]\<rparr>, W)"
      by (simp add: execute_entry_def executeMove_refused [OF True])
    have "\<forall>c \<in> set ((cars s)[i := ?c\<lparr>stuck := True\<rparr>]).
            0 \<le> distanceTraveled c \<and> 0 \<le> cellsVisited c \<and> (\<forall>n. birthTime c \<le> times W n)"
    proof
      fix c assume "c \<in> set ((cars s)[i := ?c\<lparr>stuck := True\<rparr>])"
      then have "c = ?c\<lparr>stuck := True\<rparr> \<or> c \<in> set (cars s)"
        using set_update_subset_insert [of "cars s" i] by auto
      with ok ci show "0 \<le> distanceTraveled c \<and> 0 \<le> cellsVisited c \<and> (\<forall>n. birthTime c \<le> times W n)"
        by (auto simp: stats_ok_def)
    qed
    from stats_ok_cars [OF ok this] a show ?thesis by (simp add: eq)
  next
    case False
    let ?c' = "fst (executeMove W ?c mv s)"
    let ?s' = "fst (snd (executeMove W ?c mv s))"
    let ?W' = "snd (snd (executeMove W ?c mv s))"
    have l: "later W ?W'" by (rule later_executeMove)
    from stats_ok_later [OF ok l] have ok': "stats_ok s ?W'" .
    have c': "0 \<le> distanceTraveled ?c' \<and> 0 \<le> cellsVisited ?c' \<and> birthTime ?c' = birthTime ?c"
      using False ok ci by (simp add: executeMove_def dest_key_def Let_def split_def stats_ok_def)
    have eq: "execute_entry W s i mv = (?s'\<lparr>cars := (cars s)[i := ?c']\<rparr>, ?W')"
      by (simp add: execute_entry_def Let_def split_def executeMove_committed [OF False])
    have "\<forall>c \<in> set ((cars s)[i := ?c']).
            0 \<le> distanceTraveled c \<and> 0 \<le> cellsVisited c \<and> (\<forall>n. birthTime c \<le> times ?W' n)"
    proof
      fix c assume "c \<in> set ((cars s)[i := ?c'])"
      then have "c = ?c' \<or> c \<in> set (cars s)"
        using set_update_subset_insert [of "cars s" i] by auto
      with ok' ci c' show "0 \<le> distanceTraveled c \<and> 0 \<le> cellsVisited c \<and> (\<forall>n. birthTime c \<le> times ?W' n)"
        by (auto simp: stats_ok_def)
    qed
    moreover from ok' have "stats_ok ?s' ?W'"
      by (simp add: stats_ok_def executeMove_committed [OF False])
    ultimately have "stats_ok (?s'\<lparr>cars := (cars s)[i := ?c']\<rparr>) ?W'"
      by (rule stats_ok_cars [rotated])
    with a show ?thesis
      by (simp add: eq executeMove_committed [OF False])
  qed
next
  fix s W i
  assume a: "?Q (s, W)" and i: "i < length (cars s)"
  then have ok: "stats_ok s W" by simp
  let ?c = "cars s ! i"
  from i have ci: "?c \<in> set (cars s)" by simp
  let ?W' = "snd (mark_stuck W i s)"
  have l: "later W ?W'" using later_now' [of W] by (simp add: mark_stuck_def Let_def split_def)
  from stats_ok_later [OF ok l] have ok': "stats_ok s ?W'" .
  have "\<forall>c \<in> set ((cars s)[i := ?c\<lparr>stuck := True\<rparr>]).
          0 \<le> distanceTraveled c \<and> 0 \<le> cellsVisited c \<and> (\<forall>n. birthTime c \<le> times ?W' n)"
  proof
    fix c assume "c \<in> set ((cars s)[i := ?c\<lparr>stuck := True\<rparr>])"
    then have "c = ?c\<lparr>stuck := True\<rparr> \<or> c \<in> set (cars s)"
      using set_update_subset_insert [of "cars s" i] by auto
    with ok' ci show "0 \<le> distanceTraveled c \<and> 0 \<le> cellsVisited c \<and> (\<forall>n. birthTime c \<le> times ?W' n)"
      by (auto simp: stats_ok_def)
  qed
  from stats_ok_cars [OF ok' this] have "stats_ok (fst (mark_stuck W i s)) ?W'"
    by (simp add: mark_stuck_def Let_def split_def stats_ok_def)
  with a show "?Q (mark_stuck W i s)"
    by (simp add: mark_stuck_def Let_def split_def)
next
  fix s W i
  assume a: "?Q (s, W)" and i: "i < length (cars s)"
  then have ok: "stats_ok s W" by simp
  let ?c = "cars s ! i"
  from i have ci: "?c \<in> set (cars s)" by simp
  let ?W' = "snd (retire W i s)"
  have l: "later W ?W'"
    using later_trans [OF later_now' later_now', of W] by (simp add: retire_def Let_def split_def)
  from stats_ok_later [OF ok l] have ok': "stats_ok s ?W'" .
  have "stats_ok (fst (retire W i s)) ?W'"
    using ok' set_remove_nth [of i "cars s"] unfolding stats_ok_def
    by (auto simp: retire_fields)
  moreover have "fitness_le (F strat) (strategyFitness (fst (retire W i s)) strat)" for strat
  proof -
    from ok ci have "0 \<le> (times W 0 - birthTime ?c) / 1000" and "0 \<le> distanceTraveled ?c"
      and "0 \<le> cellsVisited ?c"
      by (simp_all add: stats_ok_def)
    from record_fitness_le [OF this] have "fitness_le (strategyFitness s strat)
        (record_fitness ((times W 0 - birthTime ?c) / 1000) ?c (strategyFitness s strat))" .
    moreover from a have "fitness_le (F strat) (strategyFitness s strat)" by simp
    ultimately show ?thesis
      by (auto simp: retire_fitness intro: fitness_le_trans)
  qed
  ultimately show "?Q (retire W i s)" by simp
next
  fix s W cid assume "?Q (s, W)"
  then show "?Q (removeCarTraces cid s, W)"
    by (simp add: removeCarTraces_def Let_def stats_ok_def)
next
  fix s W now assume "?Q (s, W)"
  then show "?Q (clearFadedCells now (map car_id (cars s)) s, W)"
    by (simp add: clearFadedCells_def Let_def stats_ok_def)
next
  fix s W t assume "?Q (s, W)"
  then show "?Q (s\<lparr>lastStepTime := t\<rparr>, W)" by (simp add: stats_ok_def)
next
  fix s W t assume "?Q (s, W)"
  then show "?Q (s\<lparr>lastSpawnTime := t\<rparr>, W)" by (simp add: stats_ok_def)
qed

lemma phase3_fitness:
  assumes "entries_ok es s"
  shows "strategyFitness (fst (phase3 counts es s W)) = strategyFitness s"
  using phase3_invariant [OF fitness_step [of "strategyFitness s"] _ assms, of W counts]
  by simp

lemma spawn_phase_fitness:
  "strategyFitness (fst (spawn_phase now W s)) = strategyFitness s"
  using spawn_phase_invariant [OF fitness_step [of "strategyFitness s"], of s W now]
  by simp

lemma onResize_returns:
  "spawnDelay s \<noteq> 0 \<or> maxCars s \<noteq> PlusInfinity \<Longrightarrow> \<exists>r. onResize_callback W iw ih s = Some r"
proof (cases "spawnDelay s = 0")
  case False
  then show ?thesis by (simp add: onResize_callback_def)
next
  case True
  assume "spawnDelay s \<noteq> 0 \<or> maxCars s \<noteq> PlusInfinity"
  with True have "maxCars s \<noteq> PlusInfinity" by simp
  then have "maxCars (s\<lparr>canvasWidth := iw, canvasHeight := ih,
                 cars := [], occupiedCells := [], cellTimestamps := [], cellOwners := [],
                 deadCarIds := [], allLines := [], lastSpawnTime := 0\<rparr>) \<noteq> PlusInfinity" by simp
  from spawn_loop_returns [OF this, of 0 W] True show ?thesis
    by (simp add: onResize_callback_def)
qed

lemma onResize_invariant:
  assumes "step_invariant Q"
    and "Q (s\<lparr>canvasWidth := iw, canvasHeight := ih,
                 cars := [], occupiedCells := [], cellTimestamps := [], cellOwners := [],
                 deadCarIds := [], allLines := [], lastSpawnTime := 0\<rparr>, W)"
    and "onResize_callback W iw ih s = Some r"
  shows "Q r"
  using assms(2,3) spawn_loop_invariant [OF assms(1,2), of 0 r]
  by (auto simp: onResize_callback_def Let_def split: if_splits)

lemma onResize_fitness:
  assumes "onResize_callback W iw ih s = Some r"
  shows "strategyFitness (fst r) = strategyFitness s"
proof -
  have "step_invariant (\<lambda>q. strategyFitness (fst q) = strategyFitness s)" by (rule fitness_step)
  from onResize_invariant [OF this _ assms] show ?thesis by simp
qed

lemma stats_ok_fresh:
  "\<forall>m n. m \<le> n \<longrightarrow> times W m \<le> times W n \<Longrightarrow> stats_ok (setup_canvas iw ih (CircuitBoard opts)) W"
  by (simp add: stats_ok_def setup_canvas_def CircuitBoard_def)

lemma facing_cars_stats: "stats_ok facing_cars still_world"
  by (simp add: stats_ok_def facing_cars_def wanderer_at_def still_world_def)

subsection \<open>Spawning\<close>

lemma spawn_random_none:
  "fst (spawn_random n W strat s) = None \<longleftrightarrow> (\<forall>p \<in> set (random_points n W s). \<not> free_point s p)"
proof (induction n arbitrary: W)
  case 0
  then show ?case by simp
next
  case (Suc n)
  obtain gx gy W2 where g: "random_point W s = ((gx, gy), W2)"
    by (cases "random_point W s") auto
  show ?case
    using Suc [of W2] by (simp add: g free_point_def Let_def split_def)
qed

lemma spawn_random_first:
  "fst (spawn_random n W strat s) = Some s' \<Longrightarrow>
   \<exists>p W'. List.find (free_point s) (random_points n W s) = Some p \<and>
          s' = fst (place_car W' strat (fst p) (snd p) s)"
proof (induction n arbitrary: W)
  case 0
  then show ?case by simp
next
  case (Suc n)
  obtain gx gy W2 where g: "random_point W s = ((gx, gy), W2)"
    by (cases "random_point W s") auto
  show ?case
  proof (cases "free_point s (gx, gy)")
    case True
    with Suc.prems g have "s' = fst (place_car W2 strat gx gy s)"
      by (simp add: free_point_def Let_def split_def)
    with True g show ?thesis by auto
  next
    case False
    with Suc.prems g have "fst (spawn_random n W2 strat s) = Some s'"
      by (simp add: free_point_def)
    from Suc.IH [OF this] False g show ?thesis by simp
  qed
qed

lemma length_random_points: "length (random_points n W s) = n"
  by (induction n arbitrary: W) simp_all

lemma spawn_scan_find:
  "spawn_scan s cells =
     List.find (\<lambda>p. in_canvas s p \<and> free_point s p) (map (\<lambda>rc. grid_point s (fst rc) (snd rc)) cells)"
proof (induction cells)
  case Nil
  then show ?case by simp
next
  case (Cons rc rest)
  obtain row col where rc: "rc = (row, col)" by (cases rc)
  obtain gx gy where g: "grid_point s row col = (gx, gy)" by (cases "grid_point s row col")
  show ?case
    using Cons by (simp add: rc g in_canvas_def free_point_def)
qed

lemma spawnCar_fails_iff:
  "\<not> fst (spawnCar W s) \<longleftrightarrow>
     (\<forall>p \<in> set (random_points 100 (snd (selectStrategyByFitness W s)) s). \<not> free_point s p) \<and>
     spawn_scan s (scan_order s) = None"
proof -
  obtain strat W1 where sel: "selectStrategyByFitness W s = (strat, W1)"
    by (cases "selectStrategyByFitness W s")
  obtain r W2 where rnd: "spawn_random 100 W1 strat s = (r, W2)"
    by (cases "spawn_random 100 W1 strat s")
  from spawn_random_none [of 100 W1 strat s] rnd
  have r: "r = None \<longleftrightarrow> (\<forall>p \<in> set (random_points 100 W1 s). \<not> free_point s p)" by simp
  show ?thesis
  proof (cases r)
    case None
    show ?thesis
    proof (cases "spawn_scan s (scan_order s)")
      case scan: None
      with None r sel rnd show ?thesis by (simp add: spawnCar_def)
    next
      case scan: (Some q)
      obtain gx gy where q: "q = (gx, gy)" by (cases q)
      obtain s' W3 where pl: "place_car W2 strat gx gy s = (s', W3)"
        by (cases "place_car W2 strat gx gy s")
      from None r sel rnd scan q pl show ?thesis by (simp add: spawnCar_def)
    qed
  next
    case (Some b)
    with r sel rnd show ?thesis
      by (auto simp: spawnCar_def)
  qed
qed

lemma spawnCar_fails_unchanged:
  assumes "\<not> fst (spawnCar W s)"
  shows "fst (snd (spawnCar W s)) = s"
proof -
  obtain ok s' W' where sp: "spawnCar W s = (ok, s', W')" by (cases "spawnCar W s")
  from spawnCar_cases [OF sp] assms sp show ?thesis by auto
qed

lemma spawnCar_place:
  assumes "fst (spawnCar W s)"
  shows "\<exists>p W'.
     (List.find (free_point s) (random_points 100 (snd (selectStrategyByFitness W s)) s) = Some p \<or>
      (\<forall>q \<in> set (random_points 100 (snd (selectStrategyByFitness W s)) s). \<not> free_point s q) \<and>
      spawn_scan s (scan_order s) = Some p) \<and>
     fst (snd (spawnCar W s)) = fst (place_car W' (fst (selectStrategyByFitness W s)) (fst p) (snd p) s)"
proof -
  obtain strat W1 where sel: "selectStrategyByFitness W s = (strat, W1)"
    by (cases "selectStrategyByFitness W s")
  obtain r W2 where rnd: "spawn_random 100 W1 strat s = (r, W2)"
    by (cases "spawn_random 100 W1 strat s")
  show ?thesis
  proof (cases r)
    case (Some b)
    with rnd have "fst (spawn_random 100 W1 strat s) = Some b" by simp
    from spawn_random_first [OF this] obtain p W' where
      "List.find (free_point s) (random_points 100 W1 s) = Some p"
      and "b = fst (place_car W' strat (fst p) (snd p) s)" by blast
    moreover from Some sel rnd have "fst (snd (spawnCar W s)) = b"
      by (simp add: spawnCar_def)
    ultimately show ?thesis using sel
      by (intro exI [of _ p] exI [of _ W']) simp
  next
    case None
    with rnd spawn_random_none [of 100 W1 strat s]
    have all: "\<forall>q \<in> set (random_points 100 W1 s). \<not> free_point s q" by simp
    from assms None sel rnd obtain p where sc: "spawn_scan s (scan_order s) = Some p"
      by (auto simp: spawnCar_def split: option.splits)
    with None sel rnd have "fst (snd (spawnCar W s)) = fst (place_car W2 strat (fst p) (snd p) s)"
      by (simp add: spawnCar_def split_def)
    with all sc sel show ?thesis
      by (intro exI [of _ p] exI [of _ W2]) simp
  qed
qed

subsection \<open>Eviction\<close>

lemma find_oldest_least:
  "find_oldest xs best = Some p \<Longrightarrow>
   (\<forall>q \<in> set xs. snd p \<le> snd q) \<and> (\<forall>b. best = Some b \<longrightarrow> snd p \<le> snd b)"
proof (induction xs arbitrary: best)
  case Nil
  then show ?case by simp
next
  case (Cons x xs)
  obtain cid t where x: "x = (cid, t)" by (cases x)
  show ?case
  proof (cases best)
    case None
    with Cons.prems x have "find_oldest xs (Some (cid, t)) = Some p" by simp
    from Cons.IH [OF this] None x show ?thesis by simp
  next
    case (Some b)
    obtain bc bt where b: "b = (bc, bt)" by (cases b)
    show ?thesis
    proof (cases "t < bt")
      case True
      with Cons.prems x Some b have "find_oldest xs (Some (cid, t)) = Some p" by simp
      from Cons.IH [OF this] True Some b x show ?thesis by auto
    next
      case False
      with Cons.prems x Some b have "find_oldest xs (Some (bc, bt)) = Some p" by simp
      from Cons.IH [OF this] False Some b x show ?thesis by auto
    qed
  qed
qed

lemma find_oldest_some: "xs \<noteq> [] \<or> best \<noteq> None \<Longrightarrow> find_oldest xs best \<noteq> None"
  by (induction xs arbitrary: best) (auto split: option.splits)

lemma removeCarTraces_owner:
  "map_of (cellOwners (removeCarTraces cid s)) k =
     (if map_of (cellOwners s) k = Some cid then None else map_of (cellOwners s) k)"
proof -
  have "map_of (cellOwners s) k = Some cid \<Longrightarrow> k \<in> fst ` set (cellOwners s)"
    by (metis domI dom_map_of_conv_image_fst)
  then show ?thesis
    by (auto simp: removeCarTraces_def Let_def map_of_delete_keys)
qed

lemma spawn_phase_evicts:
  assumes due: "lt (real (length (cars s))) (maxCars s)" "now - lastSpawnTime s \<ge> spawnDelay s"
    and inf: "infiniteLifetime s" and fail: "\<not> fst (spawnCar W s)" and dead: "deadCarIds s \<noteq> []"
  shows "\<exists>cid t. (cid, t) \<in> set (deadCarIds s) \<and> (\<forall>q \<in> set (deadCarIds s). t \<le> snd q) \<and>
           spawn_phase now W s =
             (fst (snd (spawnCar (snd (snd (spawnCar W s))) (removeCarTraces cid s)))
                \<lparr>lastSpawnTime := now\<rparr>,
              snd (snd (spawnCar (snd (snd (spawnCar W s))) (removeCarTraces cid s))))"
proof -
  obtain ok s1 W1 where sp: "spawnCar W s = (ok, s1, W1)" by (cases "spawnCar W s")
  from fail sp have ok: "\<not> ok" by simp
  from spawnCar_fails_unchanged [OF fail] sp have s1: "s1 = s" by simp
  let ?xs = "sort_key fst (deadCarIds s)"
  from dead have "?xs \<noteq> []" by (metis length_sort length_0_conv)
  then obtain p where p: "find_oldest ?xs None = Some p"
    using find_oldest_some [of ?xs None] by auto
  obtain cid t where ct: "p = (cid, t)" by (cases p)
  from find_oldest_mem [OF p] ct have mem: "(cid, t) \<in> set (deadCarIds s)" by simp
  from find_oldest_least [OF p] ct have least: "\<forall>q \<in> set (deadCarIds s). t \<le> snd q" by simp
  have "spawn_phase now W s =
      (fst (snd (spawnCar W1 (removeCarTraces cid s)))\<lparr>lastSpawnTime := now\<rparr>,
       snd (snd (spawnCar W1 (removeCarTraces cid s))))"
    using due inf ok dead sp s1 p ct by (simp add: spawn_phase_def Let_def split_def)
  with mem least sp show ?thesis by auto
qed

lemma spawn_phase_no_eviction:
  assumes due: "lt (real (length (cars s))) (maxCars s)" "now - lastSpawnTime s \<ge> spawnDelay s"
    and fail: "\<not> fst (spawnCar W s)" and no: "\<not> infiniteLifetime s \<or> deadCarIds s = []"
  shows "fst (spawn_phase now W s) = s\<lparr>lastSpawnTime := now\<rparr>"
proof -
  obtain ok s1 W1 where sp: "spawnCar W s = (ok, s1, W1)" by (cases "spawnCar W s")
  from fail sp have ok: "\<not> ok" by simp
  from spawnCar_fails_unchanged [OF fail] sp have s1: "s1 = s" by simp
  from due ok no sp s1 show ?thesis
    by (auto simp: spawn_phase_def Let_def split_def)
qed

lemma removeCarTraces_frees:
  assumes "map_of (cellOwners s) k = Some cid"
  shows "\<not> occupied (occupiedCells (removeCarTraces cid s)) k"
proof -
  from assms have "k \<in> fst ` set (cellOwners s)"
    by (metis domI dom_map_of_conv_image_fst)
  with assms show ?thesis
    by (auto simp: removeCarTraces_def Let_def map_of_delete_keys occupied_def)
qed

lemma still_world_random_point: "random_point still_world full_board = ((0, 0), still_world)"
  by (simp add: random_point_def still_world_def full_board_def fresh_board_def setup_canvas_def
      CircuitBoard_def default_options_def or_default_def Math_random_def Rep_unit_interval_zero
      grid_point_def js_rem_def Let_def)

lemma full_board_random_points: "set (random_points n still_world full_board) \<subseteq> {(0, 0)}"
  by (induction n) (simp_all add: still_world_random_point)

lemma full_board_taken: "\<not> free_point full_board (0, 0)"
  by (simp add: free_point_def occupied_def full_board_def getHexKey_def Math_round_def)

lemma full_board_select: "snd (selectStrategyByFitness still_world full_board) = still_world"
  by (simp add: selectStrategyByFitness_def uniform_strategy_def still_world_def full_board_def
      fresh_board_def setup_canvas_def CircuitBoard_def default_options_def Math_random_def
      Rep_unit_interval_zero Let_def)

lemma full_board_scan: "spawn_scan full_board (scan_order full_board) = None"
  by (simp add: scan_order_def full_board_def fresh_board_def setup_canvas_def
      CircuitBoard_def default_options_def or_default_def grid_point_def js_rem_def Let_def
      occupied_def getHexKey_def Math_round_def)

subsection \<open>Move legality\<close>

lemma cramer:
  fixes x1 y1 x2 y2 x3 y3 x4 y4 :: real
  defines "denom \<equiv> ((y4 - y3) * (x2 - x1)) - ((x4 - x3) * (y2 - y1))"
  assumes nz: "denom \<noteq> 0"
  shows "(x1 + ua * (x2 - x1) = x3 + ub * (x4 - x3) \<and> y1 + ua * (y2 - y1) = y3 + ub * (y4 - y3)) \<longleftrightarrow>
         ua = (((x4 - x3) * (y1 - y3)) - ((y4 - y3) * (x1 - x3))) / denom \<and>
         ub = (((x2 - x1) * (y1 - y3)) - ((y2 - y1) * (x1 - x3))) / denom"
proof
  assume eq: "x1 + ua * (x2 - x1) = x3 + ub * (x4 - x3) \<and> y1 + ua * (y2 - y1) = y3 + ub * (y4 - y3)"
  then have a: "ua * (x2 - x1) - ub * (x4 - x3) = x3 - x1"
    and b: "ua * (y2 - y1) - ub * (y4 - y3) = y3 - y1" by (simp_all add: algebra_simps)
  have "ua * denom = (x4 - x3) * (y1 - y3) - (y4 - y3) * (x1 - x3)"
  proof -
    have "ua * denom = (y4 - y3) * (ua * (x2 - x1) - ub * (x4 - x3)) - (x4 - x3) * (ua * (y2 - y1) - ub * (y4 - y3))"
      by (simp add: denom_def algebra_simps)
    also have "\<dots> = (y4 - y3) * (x3 - x1) - (x4 - x3) * (y3 - y1)" by (simp only: a b)
    also have "\<dots> = (x4 - x3) * (y1 - y3) - (y4 - y3) * (x1 - x3)" by (simp add: algebra_simps)
    finally show ?thesis .
  qed
  moreover have "ub * denom = (x2 - x1) * (y1 - y3) - (y2 - y1) * (x1 - x3)"
  proof -
    have "ub * denom = (y2 - y1) * (ua * (x2 - x1) - ub * (x4 - x3)) - (x2 - x1) * (ua * (y2 - y1) - ub * (y4 - y3))"
      by (simp add: denom_def algebra_simps)
    also have "\<dots> = (y2 - y1) * (x3 - x1) - (x2 - x1) * (y3 - y1)" by (simp only: a b)
    also have "\<dots> = (x2 - x1) * (y1 - y3) - (y2 - y1) * (x1 - x3)" by (simp add: algebra_simps)
    finally show ?thesis .
  qed
  ultimately show "ua = (((x4 - x3) * (y1 - y3)) - ((y4 - y3) * (x1 - x3))) / denom \<and>
         ub = (((x2 - x1) * (y1 - y3)) - ((y2 - y1) * (x1 - x3))) / denom"
    using nz by (simp add: eq_divide_eq)
next
  assume sol: "ua = (((x4 - x3) * (y1 - y3)) - ((y4 - y3) * (x1 - x3))) / denom \<and>
         ub = (((x2 - x1) * (y1 - y3)) - ((y2 - y1) * (x1 - x3))) / denom"
  then have ua: "ua * denom = (x4 - x3) * (y1 - y3) - (y4 - y3) * (x1 - x3)"
    and ub: "ub * denom = (x2 - x1) * (y1 - y3) - (y2 - y1) * (x1 - x3)"
    using nz by simp_all
  have "(x1 + ua * (x2 - x1) - (x3 + ub * (x4 - x3))) * denom = 0"
  proof -
    have "(x1 + ua * (x2 - x1) - (x3 + ub * (x4 - x3))) * denom =
          (x1 - x3) * denom + (ua * denom) * (x2 - x1) - (ub * denom) * (x4 - x3)"
      by (simp add: algebra_simps)
    also have "\<dots> = 0" unfolding ua ub by (simp add: denom_def algebra_simps)
    finally show ?thesis .
  qed
  moreover have "(y1 + ua * (y2 - y1) - (y3 + ub * (y4 - y3))) * denom = 0"
  proof -
    have "(y1 + ua * (y2 - y1) - (y3 + ub * (y4 - y3))) * denom =
          (y1 - y3) * denom + (ua * denom) * (y2 - y1) - (ub * denom) * (y4 - y3)"
      by (simp add: algebra_simps)
    also have "\<dots> = 0" unfolding ua ub by (simp add: denom_def algebra_simps)
    finally show ?thesis .
  qed
  ultimately show "x1 + ua * (x2 - x1) = x3 + ub * (x4 - x3) \<and> y1 + ua * (y2 - y1) = y3 + ub * (y4 - y3)"
    using nz by simp
qed

lemma six_directions:
  assumes "0 \<le> d" "d < 6"
  shows "d = 0 \<or> d = 1 \<or> d = 2 \<or> d = 3 \<or> d = 4 \<or> d = (5 :: int)"
  using assms by arith

lemma other_strategies_permute:
  assumes "car_strategy c \<noteq> Wanderer" and "0 \<le> currentDirection c" and "currentDirection c < 6"
  shows "mset (fst (priorities_of W c)) = mset [0, 1, 2, 3, 4, 5]"
proof -
  have rot: "mset (map (\<lambda>i. js_rem (currentDirection c + i) 6) [0, 1, 2, 3, 4, 5]) =
      mset [0, 1, 2, 3, 4, 5]"
    using six_directions [OF assms(2,3)] by (auto simp: js_rem_def)
  show ?thesis
  proof (cases "car_strategy c")
    case Wanderer
    with assms(1) show ?thesis by simp
  next
    case Explorer
    have "mset (fst (shuffle W 5 (map (\<lambda>i. js_rem (currentDirection c + i) 6) [0, 1, 2, 3, 4, 5]))) =
        mset (map (\<lambda>i. js_rem (currentDirection c + i) 6) [0, 1, 2, 3, 4, 5])"
      by (rule shuffle_mset) simp
    with rot Explorer show ?thesis by (simp add: priorities_of_def Let_def)
  next
    case Spiral
    then show ?thesis
      using six_directions [OF assms(2,3)]
      by (auto simp: priorities_of_def Let_def js_rem_def)
  next
    case WallFollower
    then show ?thesis
      using six_directions [OF assms(2,3)]
      by (auto simp: priorities_of_def Let_def js_rem_def)
  qed
qed

lemma nearest_int_iff: "nearest_int v n \<longleftrightarrow> n = Math_round v"
proof -
  have "nearest_int v n \<longleftrightarrow> real_of_int n \<le> v + 1 / 2 \<and> v + 1 / 2 < real_of_int n + 1"
    unfolding nearest_int_def by linarith
  also have "\<dots> \<longleftrightarrow> \<lfloor>v + 1 / 2\<rfloor> = n"
    by (rule floor_eq_iff [symmetric])
  finally show ?thesis unfolding Math_round_def by blast
qed

lemma canonical_key_iff: "canonical_key p k \<longleftrightarrow> k = getHexKey (fst p) (snd p)"
  by (cases k) (auto simp: canonical_key_def nearest_int_iff getHexKey_def)

lemma cell_taken_iff: "cell_taken cells p \<longleftrightarrow> occupied cells (getHexKey (fst p) (snd p))"
  by (auto simp: cell_taken_def canonical_key_iff occupied_def split: option.splits)

lemma same_cell_iff: "same_cell p q \<longleftrightarrow> getHexKey (fst p) (snd p) = getHexKey (fst q) (snd q)"
  by (auto simp: same_cell_def canonical_key_iff)

lemma js_rem_even: "js_rem row 2 = 0 \<longleftrightarrow> even row"
  by (auto simp: js_rem_def)

lemma grid_point_lattice: "grid_point s row col = lattice_point (hexSize s) row col"
  by (simp add: grid_point_def lattice_point_def row_offset_def row_height_def js_rem_even Let_def)

lemma snaps_to_iff: "snaps_to hs p g \<longleftrightarrow> g = snap hs (fst p) (snd p)"
  by (auto simp: snaps_to_def nearest_int_iff snap_def lattice_point_def row_offset_def
      row_height_def js_rem_even Let_def)

lemma neighbor_of_iff:
  assumes "0 \<le> d" "d < 6"
  shows "neighbor_of hs (px, py) d =
    (px + fst (hexDirections hs ! nat d), py + snd (hexDirections hs ! nat d))"
proof -
  from assms have "d = 0 \<or> d = 1 \<or> d = 2 \<or> d = 3 \<or> d = 4 \<or> d = 5" by arith
  then show ?thesis
    by (elim disjE) (simp_all add: neighbor_of_def hexDirections_def row_height_def Let_def)
qed

lemma sample_blocked_iff:
  "sample_blocked c cells (px, py) \<longleftrightarrow>
     (let g = snap (car_hexSize c) px py in
      sqrt ((px - fst g)\<^sup>2 + (py - snd g)\<^sup>2) < car_hexSize c * (6 / 10) \<and>
      occupied cells (getHexKey (fst g) (snd g)) \<and>
      getHexKey (fst g) (snd g) \<noteq> getHexKey (car_x c) (car_y c))"
  by (simp add: sample_blocked_def snaps_to_iff cell_taken_iff same_cell_iff Let_def)

lemma path_blocked_iff:
  "path_blocked c dx dy cells step =
     sample_blocked c cells (car_x c + dx * (real step / 3), car_y c + dy * (real step / 3))"
  by (simp add: path_blocked_def sample_blocked_iff Let_def split_def)

lemma linesIntersect_code:
  "linesIntersect hs x1 y1 x2 y2 x3 y3 x4 y4 =
     (if shares_endpoint hs x1 y1 x2 y2 x3 y3 x4 y4 then False
      else if \<bar>((y4 - y3) * (x2 - x1)) - ((x4 - x3) * (y2 - y1))\<bar> < 1 / 10000 then False
      else (((x4 - x3) * (y1 - y3)) - ((y4 - y3) * (x1 - x3))) /
             (((y4 - y3) * (x2 - x1)) - ((x4 - x3) * (y2 - y1))) > 5 / 100 \<and>
           (((x4 - x3) * (y1 - y3)) - ((y4 - y3) * (x1 - x3))) /
             (((y4 - y3) * (x2 - x1)) - ((x4 - x3) * (y2 - y1))) < 95 / 100 \<and>
           (((x2 - x1) * (y1 - y3)) - ((y2 - y1) * (x1 - x3))) /
             (((y4 - y3) * (x2 - x1)) - ((x4 - x3) * (y2 - y1))) > 5 / 100 \<and>
           (((x2 - x1) * (y1 - y3)) - ((y2 - y1) * (x1 - x3))) /
             (((y4 - y3) * (x2 - x1)) - ((x4 - x3) * (y2 - y1))) < 95 / 100)"
  unfolding linesIntersect_def Let_def shares_endpoint_def near_def by (rule refl)

lemma linesIntersect_iff:
  "linesIntersect hs x1 y1 x2 y2 x3 y3 x4 y4 = segments_cross hs x1 y1 x2 y2 x3 y3 x4 y4"
proof -
  let ?denom = "((y4 - y3) * (x2 - x1)) - ((x4 - x3) * (y2 - y1))"
  let ?ua = "(((x4 - x3) * (y1 - y3)) - ((y4 - y3) * (x1 - x3))) / ?denom"
  let ?ub = "(((x2 - x1) * (y1 - y3)) - ((y2 - y1) * (x1 - x3))) / ?denom"
  let ?share = "shares_endpoint hs x1 y1 x2 y2 x3 y3 x4 y4"
  let ?par = "\<bar>?denom\<bar> < 1 / 10000"
  let ?in = "5 / 100 < ?ua \<and> ?ua < 95 / 100 \<and> 5 / 100 < ?ub \<and> ?ub < 95 / 100"
  let ?meet = "segments_meet x1 y1 x2 y2 x3 y3 x4 y4"
  have code: "linesIntersect hs x1 y1 x2 y2 x3 y3 x4 y4 =
      (if ?share then False else if ?par then False else ?in)"
    by (rule linesIntersect_code)
  have spec: "segments_cross hs x1 y1 x2 y2 x3 y3 x4 y4 = (\<not> ?share \<and> \<not> ?par \<and> ?meet)"
    unfolding segments_cross_def not_less by (rule refl)
  have meet: "?meet \<longleftrightarrow> ?in" if big: "\<not> ?par"
  proof
    from big have nz: "?denom \<noteq> 0" by auto
    {
      assume ?meet
      then obtain ua ub where r: "5 / 100 < ua" "ua < 95 / 100" "5 / 100 < ub" "ub < 95 / 100"
        and e: "x1 + ua * (x2 - x1) = x3 + ub * (x4 - x3) \<and> y1 + ua * (y2 - y1) = y3 + ub * (y4 - y3)"
        unfolding segments_meet_def by blast
      from e cramer [OF nz, of ua ub] have "ua = ?ua" and "ub = ?ub" by blast+
      with r show ?in by blast
    }
    {
      assume r: ?in
      from cramer [OF nz, of ?ua ?ub]
      have "x1 + ?ua * (x2 - x1) = x3 + ?ub * (x4 - x3) \<and> y1 + ?ua * (y2 - y1) = y3 + ?ub * (y4 - y3)"
        by blast
      with r show ?meet unfolding segments_meet_def by blast
    }
  qed
  show ?thesis
    unfolding code spec using meet by (cases ?share; cases ?par) (simp_all only: if_True if_False simp_thms)
qed

lemma recent_drop: "drop (nat (max 0 (int (length xs) - int n))) xs = recent n xs"
proof -
  have "nat (max 0 (int (length xs) - int n)) = length xs - n" by simp
  then show ?thesis by (simp add: recent_def rev_take)
qed

lemma tryDirection_legal:
  assumes d: "0 \<le> d" "d < 6"
  shows "tryDirection c d cells cw ch lines =
     Inr (if legal_move c d cells cw ch lines
          then Some \<lparr>mv_x = fst (destination c d), mv_y = snd (destination c d), direction = d\<rparr>
          else None)"
proof -
  have steps: "list_ex P [Suc 0..<3] \<longleftrightarrow> P 1 \<or> P 2" for P :: "nat \<Rightarrow> bool"
    by (simp add: upt_rec numeral_2_eq_2 numeral_3_eq_3)
  have win: "drop (nat (max 0 (int (length lines) - 100))) lines = recent 100 lines"
    using recent_drop [of lines 100] by simp
  have cross: "list_ex (\<lambda>l. linesIntersect hs a b nx ny (lx1 l) (ly1 l) (lx2 l) (ly2 l)) xs \<longleftrightarrow>
      (\<exists>l \<in> set xs. segments_cross hs a b nx ny (lx1 l) (ly1 l) (lx2 l) (ly2 l))"
    for hs a b nx ny and xs :: "line list"
    by (simp add: list_ex_iff linesIntersect_iff)
  have dest: "destination c d =
      (car_x c + fst (hexDirections (car_hexSize c) ! nat d),
       car_y c + snd (hexDirections (car_hexSize c) ! nat d))"
    unfolding destination_def by (rule neighbor_of_iff [OF d])
  show ?thesis
    using d
    by (simp add: tryDirection_def legal_move_def legal_with_def dest Let_def split_def steps win
        path_blocked_iff cross cell_taken_iff)
qed

lemma facing_cells: "occupiedCells facing_cars = [((0, 0), 1), ((200, 0), 1)]"
  by (simp add: facing_cars_def)

lemma east_try:
  "tryDirection (wanderer_at 0 0 0 0) 0 [((0, 0), 1), ((200, 0), 1)] 1000 1000 [segment_of cid ax ay bx by] =
     Inr (if linesIntersect 100 0 0 100 0 ax ay bx by then None
          else Some \<lparr>mv_x = 100, mv_y = 0, direction = 0\<rparr>)"
  by (simp add: tryDirection_def wanderer_at_def hexDirections_def getHexKey_def Math_round_def
      occupied_def path_blocked_def snap_def js_rem_def Let_def upt_rec
      sqrt_sum_squares_less_iff segment_of_def)

lemma far_segment_parallel: "\<not> linesIntersect 100 0 0 100 0 300 0 200 0"
  by (simp add: linesIntersect_def Let_def)

lemma upright_segment_crosses: "linesIntersect 100 0 0 100 0 50 (- 50) 50 50"
  by (simp add: linesIntersect_def Let_def)

lemma flat_segment_passes:
  "\<not> linesIntersect 100 0 0 100 0 20 (- (1 / 4000000)) 80 (1 / 4000000)"
  by (simp add: linesIntersect_def Let_def)

lemma flat_segment_meets: "segments_meet 0 0 100 0 20 (- (1 / 4000000)) 80 (1 / 4000000)"
  unfolding segments_meet_def
  by (rule exI [of _ "1 / 2"], rule exI [of _ "1 / 2"]) simp

lemma flat_segment_intersects:
  "segments_intersect 100 0 0 100 0 20 (- (1 / 4000000)) 80 (1 / 4000000)"
  unfolding segments_intersect_def using flat_segment_meets
  by (simp add: shares_endpoint_def near_def)

lemma east_destination: "destination (wanderer_at 0 0 0 0) 0 = (100, 0)"
  by (simp add: destination_def neighbor_of_def wanderer_at_def)

lemma flat_segment_illegal_as_claimed:
  "\<not> legal_as_claimed (wanderer_at 0 0 0 0) 0 [((0, 0), 1), ((200, 0), 1)] 1000 1000
     [segment_of 1 20 (- (1 / 4000000)) 80 (1 / 4000000)]"
proof -
  have c: "car_x (wanderer_at 0 0 0 0) = 0" "car_y (wanderer_at 0 0 0 0) = 0"
    "car_hexSize (wanderer_at 0 0 0 0) = 100"
    by (simp_all add: wanderer_at_def)
  have r: "recent 100 [l] = [l]" for l :: line by (simp add: recent_def)
  show ?thesis
    unfolding legal_as_claimed_def legal_with_def east_destination Let_def fst_conv snd_conv c r
    using flat_segment_intersects by (simp add: segment_of_def)
qed

lemma random_point_eq:
  "random_point W s = (tried_point W s 0, W\<lparr>rands := \<lambda>n. rands W (Suc (Suc n))\<rparr>)"
  by (simp add: random_point_def tried_point_def Math_random_def grid_point_lattice
      row_height_def Let_def mult.assoc)

lemma tried_point_shift:
  "tried_point (W\<lparr>rands := \<lambda>n. rands W (Suc (Suc n))\<rparr>) s k = tried_point W s (Suc k)"
  by (simp add: tried_point_def)

lemma random_points_eq: "random_points n W s = map (tried_point W s) [0..<n]"
proof (induction n arbitrary: W)
  case 0
  show ?case by simp
next
  case (Suc n)
  have "random_points (Suc n) W s =
      tried_point W s 0 # map (tried_point (W\<lparr>rands := \<lambda>n. rands W (Suc (Suc n))\<rparr>) s) [0..<n]"
    by (simp add: random_point_eq Suc)
  also have "\<dots> = tried_point W s 0 # map (\<lambda>k. tried_point W s (Suc k)) [0..<n]"
    by (simp add: tried_point_shift)
  also have "\<dots> = map (tried_point W s) [0..<Suc n]"
    by (simp only: map_upt_Suc)
  finally show ?case .
qed

lemma free_point_iff: "free_point s p \<longleftrightarrow> \<not> cell_taken (occupiedCells s) p"
  by (simp add: free_point_def cell_taken_iff)

lemma scan_points_eq:
  "map (\<lambda>rc. grid_point s (fst rc) (snd rc)) (scan_order s) = scan_points s"
  by (simp add: scan_order_def scan_points_def map_concat comp_def grid_point_lattice
      row_height_def Let_def)

lemma scan_exhaustive:
  assumes hs: "0 < hexSize s" and row: "0 \<le> row" and col: "0 \<le> col"
    and inside: "in_canvas s (lattice_point (hexSize s) row col)"
  shows "lattice_point (hexSize s) row col \<in> set (scan_points s)"
proof -
  let ?rh = "row_height (hexSize s)"
  from hs have rh: "0 < ?rh" by (simp add: row_height_def)
  from inside have y: "real_of_int row * ?rh < canvasHeight s"
    and x: "real_of_int col * hexSize s + row_offset (hexSize s) row < canvasWidth s"
    by (simp_all add: in_canvas_def lattice_point_def)
  from y rh have "real_of_int row < canvasHeight s / ?rh" by (simp add: pos_less_divide_eq)
  then have "row < \<lceil>canvasHeight s / ?rh\<rceil>" by (simp add: less_ceiling_iff)
  with row have r: "nat row < nat \<lceil>canvasHeight s / ?rh\<rceil>" by arith
  from hs have "0 \<le> row_offset (hexSize s) row" by (simp add: row_offset_def)
  with x have "real_of_int col * hexSize s < canvasWidth s" by simp
  with hs have "real_of_int col < canvasWidth s / hexSize s" by (simp add: pos_less_divide_eq)
  then have "col < \<lceil>canvasWidth s / hexSize s\<rceil>" by (simp add: less_ceiling_iff)
  with col have c: "nat col < nat \<lceil>canvasWidth s / hexSize s\<rceil>" by arith
  have "\<exists>x \<in> {0..<nat \<lceil>canvasHeight s / ?rh\<rceil>}. \<exists>y \<in> {0..<nat \<lceil>canvasWidth s / hexSize s\<rceil>}.
      lattice_point (hexSize s) row col = lattice_point (hexSize s) (int x) (int y)"
    using r c row col by (intro bexI [of _ "nat row"] bexI [of _ "nat col"]) simp_all
  then show ?thesis by (auto simp: scan_points_def)
qed

lemma floor_draw:
  fixes q r :: real
  assumes "0 < q"
  shows "\<lfloor>r * q\<rfloor> = k \<longleftrightarrow> real_of_int k / q \<le> r \<and> r < (real_of_int k + 1) / q"
  using assms by (simp add: floor_eq_iff pos_divide_le_eq pos_less_divide_eq)

lemma uniform_whole: "0 < n \<Longrightarrow> uniform_over (real n) n"
proof -
  assume n: "0 < n"
  have "share (real n) (int k) = 1 / real n" if "k < n" for k
  proof -
    from that have "real k + 1 \<le> real n" by simp
    with n have "(real k + 1) / real n \<le> 1" by simp
    then have "min 1 ((real k + 1) / real n) = (real k + 1) / real n" by simp
    then show ?thesis by (simp add: share_def add_divide_distrib)
  qed
  then show ?thesis by (simp add: uniform_over_def)
qed

lemma Car_strategy: "car_strategy (fst (Car W px py cw ch hs strat cid)) = strat"
  by (simp add: Car_def Let_def split_def)

lemma place_car_placed:
  assumes "\<not> cell_taken (occupiedCells s) p"
  shows "placed s strat p (fst (place_car W strat (fst p) (snd p) s))"
proof -
  let ?k = "getHexKey (fst p) (snd p)"
  let ?s' = "fst (place_car W strat (fst p) (snd p) s)"
  from assms have free: "\<not> occupied (occupiedCells s) ?k" by (simp add: cell_taken_iff)
  then have "next_count (occupiedCells s) ?k = 1"
    by (auto simp: next_count_def occupied_def split: option.splits)
  then have "map_of (occupiedCells ?s') ?k = Some 1"
    by (simp add: place_car_def Let_def split_def update_conv')
  then have taken: "cell_taken (occupiedCells ?s') p"
    by (simp add: cell_taken_iff occupied_def)
  have own: "canonical_key p ?k \<and> map_of (cellOwners ?s') ?k = Some (nextCarId s)"
    by (simp add: canonical_key_iff place_car_fields update_conv')
  then have "\<exists>k. canonical_key p k \<and> map_of (cellOwners ?s') k = Some (nextCarId s)"
    by blast
  with taken show ?thesis
    unfolding placed_def by (simp add: place_car_fields Car_fields Car_strategy)
qed

lemma all_tried_iff:
  "(\<forall>p \<in> set (random_points n W s). \<not> free_point s p) \<longleftrightarrow>
   (\<forall>k<n. cell_taken (occupiedCells s) (tried_point W s k))"
  by (auto simp: random_points_eq free_point_iff)

lemma scan_none_iff:
  "spawn_scan s (scan_order s) = None \<longleftrightarrow>
   (\<forall>p \<in> set (scan_points s). in_canvas s p \<longrightarrow> cell_taken (occupiedCells s) p)"
  by (auto simp: spawn_scan_find scan_points_eq find_None_iff free_point_iff)

lemma scan_some_iff:
  "spawn_scan s (scan_order s) =
     List.find (\<lambda>p. in_canvas s p \<and> \<not> cell_taken (occupiedCells s) p) (scan_points s)"
  by (simp add: spawn_scan_find scan_points_eq free_point_iff)

lemma spawnCar_fails_spec:
  "\<not> fst (spawnCar W s) \<longleftrightarrow>
     (\<forall>k<100. cell_taken (occupiedCells s) (tried_point (snd (selectStrategyByFitness W s)) s k)) \<and>
     (\<forall>p \<in> set (scan_points s). in_canvas s p \<longrightarrow> cell_taken (occupiedCells s) p)"
  by (simp only: spawnCar_fails_iff all_tried_iff scan_none_iff)

lemma spawnCar_place_spec:
  assumes "fst (spawnCar W s)"
  shows "\<exists>p.
     (List.find (\<lambda>p. \<not> cell_taken (occupiedCells s) p)
        (map (tried_point (snd (selectStrategyByFitness W s)) s) [0..<100]) = Some p \<or>
      (\<forall>k<100. cell_taken (occupiedCells s) (tried_point (snd (selectStrategyByFitness W s)) s k)) \<and>
      List.find (\<lambda>p. in_canvas s p \<and> \<not> cell_taken (occupiedCells s) p) (scan_points s) = Some p) \<and>
     placed s (fst (selectStrategyByFitness W s)) p (fst (snd (spawnCar W s)))"
proof -
  let ?W1 = "snd (selectStrategyByFitness W s)"
  from spawnCar_place [OF assms] obtain p W' where
    a: "List.find (free_point s) (random_points 100 ?W1 s) = Some p \<or>
        (\<forall>q \<in> set (random_points 100 ?W1 s). \<not> free_point s q) \<and>
        spawn_scan s (scan_order s) = Some p"
    and b: "fst (snd (spawnCar W s)) = fst (place_car W' (fst (selectStrategyByFitness W s)) (fst p) (snd p) s)"
    by blast
  have fr: "free_point s = (\<lambda>p. \<not> cell_taken (occupiedCells s) p)"
    by (rule ext) (rule free_point_iff)
  from a have a': "List.find (\<lambda>p. \<not> cell_taken (occupiedCells s) p) (map (tried_point ?W1 s) [0..<100]) = Some p \<or>
      (\<forall>k<100. cell_taken (occupiedCells s) (tried_point ?W1 s k)) \<and>
      List.find (\<lambda>p. in_canvas s p \<and> \<not> cell_taken (occupiedCells s) p) (scan_points s) = Some p"
  proof (elim disjE conjE)
    assume "List.find (free_point s) (random_points 100 ?W1 s) = Some p"
    then have "List.find (\<lambda>p. \<not> cell_taken (occupiedCells s) p) (map (tried_point ?W1 s) [0..<100]) = Some p"
      by (simp only: random_points_eq fr)
    then show ?thesis by blast
  next
    assume all: "\<forall>q \<in> set (random_points 100 ?W1 s). \<not> free_point s q"
      and sc: "spawn_scan s (scan_order s) = Some p"
    from all have "\<forall>k<100. cell_taken (occupiedCells s) (tried_point ?W1 s k)"
      by (simp only: all_tried_iff)
    moreover from sc have "List.find (\<lambda>p. in_canvas s p \<and> \<not> cell_taken (occupiedCells s) p) (scan_points s) = Some p"
      by (simp only: scan_some_iff)
    ultimately show ?thesis by blast
  qed
  then have "\<not> cell_taken (occupiedCells s) p"
    by (auto simp: find_Some_iff)
  from place_car_placed [OF this, of "fst (selectStrategyByFitness W s)" W'] b
  have "placed s (fst (selectStrategyByFitness W s)) p (fst (snd (spawnCar W s)))" by simp
  with a' show ?thesis by blast
qed

lemma removeCarTraces_clears:
  assumes "map_of (cellOwners s) k = Some cid"
  shows "map_of (occupiedCells (removeCarTraces cid s)) k = None"
    and "map_of (cellTimestamps (removeCarTraces cid s)) k = None"
proof -
  from assms have "k \<in> fst ` set (cellOwners s)"
    by (metis domI dom_map_of_conv_image_fst)
  with assms show "map_of (occupiedCells (removeCarTraces cid s)) k = None"
    and "map_of (cellTimestamps (removeCarTraces cid s)) k = None"
    by (auto simp: removeCarTraces_def Let_def map_of_delete_keys)
qed

lemma removeCarTraces_keeps:
  assumes "map_of (cellOwners s) k \<noteq> Some cid"
  shows "map_of (occupiedCells (removeCarTraces cid s)) k = map_of (occupiedCells s) k"
  using assms by (auto simp: removeCarTraces_def Let_def map_of_delete_keys)

lemma removeCarTraces_dead:
  "map_of (deadCarIds (removeCarTraces cid s)) d = (if d = cid then None else map_of (deadCarIds s) d)"
  by (simp add: removeCarTraces_def Let_def delete_conv')

lemma full_board_fields:
  "hexSize full_board = 100" "canvasWidth full_board = 100" "canvasHeight full_board = 80"
  "occupiedCells full_board = [((0, 0), 1)]" "cellOwners full_board = [((0, 0), 0)]"
  "deadCarIds full_board = [(0, 500)]" "infiniteLifetime full_board" "cars full_board = []"
  "maxCars full_board = Num 2" "spawnDelay full_board = 100" "lastSpawnTime full_board = 0"
  by (simp_all add: full_board_def fresh_board_def setup_canvas_def CircuitBoard_def
      default_options_def or_default_def or_default_number_def)

lemma full_board_tried: "tried_point still_world full_board k = (0, 0)"
  by (simp add: tried_point_def full_board_fields still_world_def Rep_unit_interval_zero
      lattice_point_def row_offset_def)

lemma full_board_scan_points: "scan_points full_board = [(0, 0)]"
  by (simp add: scan_points_def full_board_fields row_height_def lattice_point_def
      row_offset_def)

lemma full_board_cell_taken: "cell_taken (occupiedCells full_board) (0, 0)"
  by (simp add: cell_taken_iff full_board_fields occupied_def getHexKey_def Math_round_def)

lemma fresh_board_fields:
  "hexSize fresh_board = 100" "canvasWidth fresh_board = 1000" "canvasHeight fresh_board = 1000"
  by (simp_all add: fresh_board_def setup_canvas_def CircuitBoard_def default_options_def
      or_default_def)

lemma fresh_board_rows:
  "canvasHeight fresh_board / row_height (hexSize fresh_board) = 5000 / 433"
  by (simp add: fresh_board_fields row_height_def)

lemma fresh_board_shares:
  "share (5000 / 433) 0 = 433 / 5000" "share (5000 / 433) 11 = 237 / 5000"
  by (simp_all add: share_def)

lemma fresh_board_not_uniform: "\<not> uniform_points fresh_board"
proof -
  have n: "nat \<lceil>5000 / 433 :: real\<rceil> = 12" by simp
  have "\<not> uniform_over (5000 / 433) 12"
    unfolding uniform_over_def
    by (rule notI, drule bspec [of _ _ 0]) (simp_all add: fresh_board_shares)
  then show ?thesis
    by (simp add: uniform_points_def fresh_board_rows n)
qed

lemma Rep_late: "Rep_unit_interval (Abs_unit_interval (19 / 20)) = 19 / 20"
  by (simp add: Abs_unit_interval_inverse)

lemma late_world_point: "fst (random_point late_world fresh_board) = (900, 866)"
  by (simp add: random_point_eq tried_point_def late_world_def Rep_late fresh_board_fields
      row_height_def lattice_point_def row_offset_def)





lemma spawn_phase_success:
  assumes "lt (real (length (cars s))) (maxCars s)" "now - lastSpawnTime s \<ge> spawnDelay s"
    and "fst (spawnCar W s)"
  shows "spawn_phase now W s =
     (fst (snd (spawnCar W s))\<lparr>lastSpawnTime := now\<rparr>, snd (snd (spawnCar W s)))"
  using assms by (simp add: spawn_phase_def Let_def split_def)

lemma spawn_phase_not_due:
  assumes "\<not> (lt (real (length (cars s))) (maxCars s) \<and> now - lastSpawnTime s \<ge> spawnDelay s)"
  shows "spawn_phase now W s = (s, W)"
  using assms by (auto simp: spawn_phase_def)

lemma uniform_points_whole:
  assumes "0 < n" "0 < m"
    and "canvasHeight s / row_height (hexSize s) = real n"
    and "canvasWidth s / hexSize s = real m"
  shows "uniform_points s"
  using assms by (simp add: uniform_points_def uniform_whole)

lemma removeCarTraces_canvas:
  "scan_points (removeCarTraces cid s) = scan_points s"
  "in_canvas (removeCarTraces cid s) p = in_canvas s p"
  by (simp_all add: scan_points_def in_canvas_def removeCarTraces_def Let_def)

lemma not_taken: "map_of cells (getHexKey (fst p) (snd p)) = None \<Longrightarrow> \<not> cell_taken cells p"
  by (simp add: cell_taken_iff occupied_def)

section \<open>The claims\<close>

subsection \<open>Brightness of traces\<close>

text \<open>
  C5. A live car's trace has brightness 1. In fading mode, with a fade duration that is
  not negative, the brightness of a dead car's trace depends only on the time since its
  death: it is 1 up to \<open>traceLifetime\<close>, falls linearly to 0 at
  \<open>traceLifetime + fadeDuration\<close> and is 0 afterwards.
\<close>

theorem fading_brightness:
  "0 \<le> fadeDuration s \<Longrightarrow>
   (cid \<in> set alive \<longrightarrow> darknessFactor s now alive cid = 1) \<and>
   (\<not> infiniteLifetime s \<and> cid \<notin> set alive \<and> map_of (deadCarIds s) cid = Some d \<longrightarrow>
      darknessFactor s now alive cid =
        brightness_spec (traceLifetime s) (fadeDuration s) ((now - d) / 1000))"
  by (auto simp: darknessFactor_def brightness_spec_def Let_def min_def field_simps)

text \<open>
  The instance of the specification: with \<open>traceLifetime = 2\<close> and \<open>fadeDuration = 1\<close>
  (the defaults), the trace of car 1, dead since time 1000, has brightness one half at
  time 3500, that is 2.5 seconds after its death.
\<close>

theorem fading_brightness_witness:
  "0 \<le> fadeDuration one_alive_one_dead \<and>
   darknessFactor one_alive_one_dead 3500 [0] 0 = 1 \<and>
   darknessFactor one_alive_one_dead 3500 [0] 1 = brightness_spec 2 1 (25 / 10) \<and>
   brightness_spec 2 1 (25 / 10) = 1 / 2"
  using fading_brightness [of one_alive_one_dead 0 "[0]" 3500 1000]
    fading_brightness [of one_alive_one_dead 1 "[0]" 3500 1000]
  by (simp add: one_alive_one_dead_def fresh_board_def setup_canvas_def CircuitBoard_def
      default_options_def brightness_spec_def)

subsection \<open>Priority lists\<close>

text \<open>
  C4. The priority list of a wanderer is not a permutation of the six directions: for the
  wanderer heading East with both draws below one half the list is
  \<open>[0, 1, 2, 3, 1, 5]\<close>, where direction 1 stands twice and direction 4 is missing.
\<close>

theorem wanderer_priorities_not_permutation:
  "fst (priorities_of still_world (wanderer_at 0 0 0 0)) = [0, 1, 2, 3, 1, 5] \<and>
   \<not> distinct (fst (priorities_of still_world (wanderer_at 0 0 0 0))) \<and>
   4 \<notin> set (fst (priorities_of still_world (wanderer_at 0 0 0 0)))"
  by (simp add: priorities_of_def wanderer_at_def still_world_def Math_random_def
      Rep_unit_interval_zero js_rem_def)

subsection \<open>Pruning\<close>

text \<open>
  C6. Pruning removes the segments of a live car: car 0 is alive and car 1 is fully
  faded at time 5000; \<open>clearFadedCells\<close> removes the cells of car 1 only, but leaves no
  segment at all, so the segment of car 0 is gone too.
\<close>

theorem clearFadedCells_drops_live_segments:
  "map car_id (cars one_alive_one_dead) = [0] \<and>
   segment_of 0 0 0 100 0 \<in> set (allLines one_alive_one_dead) \<and>
   cellOwners (clearFadedCells 5000 [0] one_alive_one_dead) = [((0, 0), 0), ((100, 0), 0)] \<and>
   allLines (clearFadedCells 5000 [0] one_alive_one_dead) = []"
  by (simp add: one_alive_one_dead_def fresh_board_def setup_canvas_def CircuitBoard_def
      default_options_def clearFadedCells_def fully_faded_def delete_keys_def
      List.map_filter_def wanderer_at_def segment_of_def Let_def)

subsection \<open>Conflicts\<close>

text \<open>
  C2. The loser of a conflict is retired. Both cars of \<open>facing_cars\<close> intend the cell
  \<open>(100, 0)\<close>. After the tick car 0, the first in order, is the only car left; car 1 is
  recorded as dead at the time of the tick and its strategy has one retirement.
\<close>

theorem conflict_loser_is_retired:
  "case draw still_world facing_cars of
     Inl e \<Rightarrow> False
   | Inr (s', W') \<Rightarrow>
       map car_id (cars s') = [0] \<and>
       map (\<lambda>c. (car_x c, car_y c)) (cars s') = [(100, 0)] \<and>
       map_of (deadCarIds s') 1 = Some 1000 \<and>
       count_fit (strategyFitness s' Wanderer) = 1"
  by (simp add: draw_def facing_cars_def fresh_board_def default_options_def wanderer_at_def
      still_world_def calculateMove_def priorities_of_def Math_random_def
      Rep_unit_interval_zero js_rem_def tryDirection_def hexDirections_def CircuitBoard_def
      setup_canvas_def or_default_def getHexKey_def Math_round_def occupied_def
      path_blocked_def snap_def Let_def sqrt_sum_squares_less_iff upt_rec scoreMove_def
      Date_now_def clearFadedCells_def phase3_def phase3_step_def execute_entry_def
      executeMove_def next_count_def spawn_phase_def zero_fitness_def mark_stuck_def
      retire_def record_fitness_def render_def getColor_def lt_def or_default_number_def)

subsection \<open>Occupancy\<close>

text \<open>
  C1. No double occupancy. The board of the constructor, before and after \<open>init\<close>, has
  one owner per cell; on a board that has, no two cars stand on the same cell, the board
  after a tick has one owner per cell again, \<open>executeMove\<close> and \<open>spawnCar\<close> leave every
  owned cell to its owner, \<open>executeMove\<close> into an occupied key changes nothing but the
  car's stuck flag, and a car that \<open>spawnCar\<close> adds stands on a key that was not
  occupied.
\<close>

theorem no_double_occupancy:
  "one_owner_per_cell (CircuitBoard opts) \<and>
   (\<forall>r. init W iw ih (CircuitBoard opts) = Some (Inr r) \<longrightarrow> one_owner_per_cell (fst r)) \<and>
   (one_owner_per_cell s \<longrightarrow>
      distinct (map car_key (cars s)) \<and>
      (\<forall>r. draw W s = Inr r \<longrightarrow> one_owner_per_cell (fst r)) \<and>
      (\<forall>k a. map_of (cellOwners s) k = Some a \<longrightarrow>
         map_of (cellOwners (fst (snd (executeMove W c mv s)))) k = Some a \<and>
         map_of (cellOwners (fst (snd (spawnCar W s)))) k = Some a) \<and>
      (occupied (occupiedCells s) (dest_key s mv) \<longrightarrow>
         executeMove W c mv s = (c\<lparr>stuck := True\<rparr>, s, W)) \<and>
      (fst (spawnCar W s) \<longrightarrow>
         (\<exists>c'. cars (fst (snd (spawnCar W s))) = cars s @ [c'] \<and>
               \<not> occupied (occupiedCells s) (car_key c'))))"
proof (intro conjI allI impI)
  show "one_owner_per_cell (CircuitBoard opts)" by (rule one_owner_fresh)
next
  fix r assume "init W iw ih (CircuitBoard opts) = Some (Inr r)"
  from init_invariant [OF one_owner_tick _ this] show "one_owner_per_cell (fst r)"
    by (simp add: one_owner_fresh)
next
  assume "one_owner_per_cell s"
  then show "distinct (map car_key (cars s))" by (rule one_owner_distinct_cells)
next
  fix r assume "one_owner_per_cell s" and "draw W s = Inr r"
  from draw_invariant [OF one_owner_tick _ this(2)] this(1)
  show "one_owner_per_cell (fst r)" by simp
next
  fix k a assume "one_owner_per_cell s" and "map_of (cellOwners s) k = Some a"
  then show "map_of (cellOwners (fst (snd (executeMove W c mv s)))) k = Some a"
    by (simp add: one_owner_per_cell_def executeMove_keeps_owner)
next
  fix k a assume "one_owner_per_cell s" and "map_of (cellOwners s) k = Some a"
  then show "map_of (cellOwners (fst (snd (spawnCar W s)))) k = Some a"
    by (simp add: one_owner_per_cell_def spawnCar_keeps_owner)
next
  assume "occupied (occupiedCells s) (dest_key s mv)"
  then show "executeMove W c mv s = (c\<lparr>stuck := True\<rparr>, s, W)" by (rule executeMove_refused)
next
  assume "fst (spawnCar W s)"
  then show "\<exists>c'. cars (fst (snd (spawnCar W s))) = cars s @ [c'] \<and>
               \<not> occupied (occupiedCells s) (car_key c')"
    by (rule spawnCar_on_free_cell)
qed

theorem no_double_occupancy_witness:
  "one_owner_per_cell facing_cars \<and>
   distinct (map car_key (cars facing_cars)) \<and>
   (\<exists>r. draw still_world facing_cars = Inr r \<and> one_owner_per_cell (fst r)) \<and>
   occupied (occupiedCells facing_cars) (dest_key facing_cars east_move) \<and>
   executeMove still_world (wanderer_at 0 0 0 0) east_move facing_cars =
     ((wanderer_at 0 0 0 0)\<lparr>stuck := True\<rparr>, facing_cars, still_world) \<and>
   map_of (cellOwners (fst (snd (spawnCar still_world facing_cars)))) (200, 0) = Some 1"
proof -
  note h = facing_cars_one_owner
  obtain r where r: "draw still_world facing_cars = Inr r"
    using draw_returns [OF facing_cars_dirs] by blast
  have occ: "occupied (occupiedCells facing_cars) (dest_key facing_cars east_move)"
    by (simp add: occupied_def dest_key_def east_move_def facing_cars_def fresh_board_def
        setup_canvas_def CircuitBoard_def default_options_def or_default_def snap_def
        getHexKey_def Math_round_def js_rem_def Let_def)
  have own: "map_of (cellOwners facing_cars) (200, 0) = Some 1"
    by (simp add: facing_cars_def)
  from no_double_occupancy [of default_options still_world 400 400 facing_cars
      "wanderer_at 0 0 0 0" east_move] h r occ own
  show ?thesis by blast
qed

text \<open>
  C10. The three cell tables have the same keys and every count is 1: on the board of
  the constructor, before and after \<open>init\<close>, and, from a board where it holds, after
  \<open>spawnCar\<close>, \<open>executeMove\<close>, \<open>removeCarTraces\<close>, \<open>clearFadedCells\<close>, the
  resize callback and a whole tick. The resize callback returns unless \<open>spawnDelay\<close>
  is zero and \<open>maxCars\<close> is \<open>Infinity\<close>.
\<close>

theorem cell_tables_stay_consistent:
  "cells_consistent (CircuitBoard opts) \<and>
   (\<forall>r. init W iw ih (CircuitBoard opts) = Some (Inr r) \<longrightarrow> cells_consistent (fst r)) \<and>
   (cells_consistent s \<longrightarrow>
      cells_consistent (fst (snd (spawnCar W s))) \<and>
      cells_consistent (fst (snd (executeMove W c mv s))) \<and>
      cells_consistent (removeCarTraces cid s) \<and>
      cells_consistent (clearFadedCells now alive s) \<and>
      (\<forall>r. onResize_callback W iw ih s = Some r \<longrightarrow> cells_consistent (fst r)) \<and>
      (spawnDelay s \<noteq> 0 \<or> maxCars s \<noteq> PlusInfinity \<longrightarrow>
         (\<exists>r. onResize_callback W iw ih s = Some r)) \<and>
      (\<forall>r. draw W s = Inr r \<longrightarrow> cells_consistent (fst r)))"
proof (intro conjI allI impI)
  show "cells_consistent (CircuitBoard opts)" by (rule cells_consistent_fresh)
next
  fix r assume "init W iw ih (CircuitBoard opts) = Some (Inr r)"
  from init_invariant [OF cells_consistent_tick _ this] show "cells_consistent (fst r)"
    by (simp add: cells_consistent_fresh)
next
  assume "cells_consistent s"
  with spawnCar_invariant [OF tick_invariant_step [OF cells_consistent_tick], of s W]
  show "cells_consistent (fst (snd (spawnCar W s)))" by simp
next
  assume "cells_consistent s"
  then show "cells_consistent (fst (snd (executeMove W c mv s)))" by (rule executeMove_consistent)
next
  assume "cells_consistent s"
  then show "cells_consistent (removeCarTraces cid s)" by (rule removeCarTraces_consistent)
next
  assume "cells_consistent s"
  then show "cells_consistent (clearFadedCells now alive s)" by (rule clearFadedCells_consistent)
next
  fix r assume r: "onResize_callback W iw ih s = Some r"
  have "step_invariant (\<lambda>q. cells_consistent (fst q))"
    by (rule tick_invariant_step [OF cells_consistent_tick])
  from onResize_invariant [OF this _ r] show "cells_consistent (fst r)"
    by (simp add: cells_consistent_def)
next
  assume "spawnDelay s \<noteq> 0 \<or> maxCars s \<noteq> PlusInfinity"
  then show "\<exists>r. onResize_callback W iw ih s = Some r" by (rule onResize_returns)
next
  fix r assume "cells_consistent s" and "draw W s = Inr r"
  from draw_invariant [OF cells_consistent_tick _ this(2)] this(1)
  show "cells_consistent (fst r)" by simp
qed

theorem cell_tables_stay_consistent_witness:
  "cells_consistent one_alive_one_dead \<and>
   cells_consistent (fst (snd (spawnCar still_world one_alive_one_dead))) \<and>
   cells_consistent (fst (snd (executeMove still_world (wanderer_at 0 100 0 0) east_move one_alive_one_dead))) \<and>
   cells_consistent (removeCarTraces 1 one_alive_one_dead) \<and>
   cells_consistent (clearFadedCells 5000 [0] one_alive_one_dead) \<and>
   (\<exists>r. draw still_world one_alive_one_dead = Inr r \<and> cells_consistent (fst r))"
proof -
  note h = one_alive_one_dead_consistent
  obtain r where r: "draw still_world one_alive_one_dead = Inr r"
    using draw_returns [OF one_alive_one_dead_dirs] by blast
  from cell_tables_stay_consistent [of default_options still_world 400 400 one_alive_one_dead
      "wanderer_at 0 100 0 0" east_move 1 5000 "[0]"] h r
  show ?thesis by blast
qed

subsection \<open>Fitness\<close>

text \<open>
  C7. Fitness monotonicity. A retirement adds to the aggregate of the car's strategy
  only, and adds exactly the car's lifetime, distance and cells and one to the count;
  phase 4 raises the count of a strategy by the number of its stuck cars and the cells
  and distance by their sums; phase 3, the spawn phase, the pruning and the resize
  callback leave the aggregates as they are. When no car has a negative statistic or a
  birth after a later clock reading and the clock never runs backwards, which holds
  after construction and is kept by every tick, no aggregate decreases over a tick.
\<close>

theorem fitness_accumulates:
  "(\<forall>strat. strategyFitness (fst (retire W i s)) strat =
      (if strat = car_strategy (cars s ! i)
       then record_fitness ((times W 0 - birthTime (cars s ! i)) / 1000) (cars s ! i)
              (strategyFitness s strat)
       else strategyFitness s strat)) \<and>
   count_fit (record_fitness l c f) = count_fit f + 1 \<and>
   totalLifetime (record_fitness l c f) = totalLifetime f + l \<and>
   totalDistance (record_fitness l c f) = totalDistance f + distanceTraveled c \<and>
   totalCells (record_fitness l c f) = totalCells f + cellsVisited c \<and>
   (n \<le> length (cars s) \<longrightarrow>
      (\<forall>strat.
         count_fit (strategyFitness (fst (phase4 n W s)) strat) =
           count_fit (strategyFitness s strat) + int (length (retiring strat n s)) \<and>
         totalCells (strategyFitness (fst (phase4 n W s)) strat) =
           totalCells (strategyFitness s strat) + sum_list (map cellsVisited (retiring strat n s)) \<and>
         totalDistance (strategyFitness (fst (phase4 n W s)) strat) =
           totalDistance (strategyFitness s strat) +
           sum_list (map distanceTraveled (retiring strat n s)))) \<and>
   (entries_ok es s \<longrightarrow> strategyFitness (fst (phase3 counts es s W)) = strategyFitness s) \<and>
   strategyFitness (fst (spawn_phase now W s)) = strategyFitness s \<and>
   strategyFitness (clearFadedCells now alive s) = strategyFitness s \<and>
   (\<forall>r. onResize_callback W iw ih s = Some r \<longrightarrow> strategyFitness (fst r) = strategyFitness s) \<and>
   (spawnDelay s \<noteq> 0 \<or> maxCars s \<noteq> PlusInfinity \<longrightarrow>
      (\<exists>r. onResize_callback W iw ih s = Some r)) \<and>
   ((\<forall>m n. m \<le> n \<longrightarrow> times W m \<le> times W n) \<longrightarrow>
      (\<forall>r. init W iw ih (CircuitBoard opts) = Some (Inr r) \<longrightarrow> stats_ok (fst r) (snd r))) \<and>
   (stats_ok s W \<longrightarrow>
      (\<forall>r. draw W s = Inr r \<longrightarrow>
         stats_ok (fst r) (snd r) \<and>
         (\<forall>strat. fitness_le (strategyFitness s strat) (strategyFitness (fst r) strat))))"
proof (intro conjI allI impI)
  fix strat
  show "strategyFitness (fst (retire W i s)) strat =
      (if strat = car_strategy (cars s ! i)
       then record_fitness ((times W 0 - birthTime (cars s ! i)) / 1000) (cars s ! i)
              (strategyFitness s strat)
       else strategyFitness s strat)"
    by (rule retire_fitness)
next
  fix strat assume n: "n \<le> length (cars s)"
  from phase4_totals [OF n, of W strat]
  show "count_fit (strategyFitness (fst (phase4 n W s)) strat) =
           count_fit (strategyFitness s strat) + int (length (retiring strat n s))"
    and "totalCells (strategyFitness (fst (phase4 n W s)) strat) =
           totalCells (strategyFitness s strat) + sum_list (map cellsVisited (retiring strat n s))"
    and "totalDistance (strategyFitness (fst (phase4 n W s)) strat) =
           totalDistance (strategyFitness s strat) +
           sum_list (map distanceTraveled (retiring strat n s))"
    by simp_all
next
  assume "entries_ok es s"
  then show "strategyFitness (fst (phase3 counts es s W)) = strategyFitness s"
    by (rule phase3_fitness)
next
  show "strategyFitness (fst (spawn_phase now W s)) = strategyFitness s"
    by (rule spawn_phase_fitness)
  show "strategyFitness (clearFadedCells now alive s) = strategyFitness s"
    by (simp add: clearFadedCells_def Let_def)
next
  fix r assume "onResize_callback W iw ih s = Some r"
  then show "strategyFitness (fst r) = strategyFitness s" by (rule onResize_fitness)
next
  assume "spawnDelay s \<noteq> 0 \<or> maxCars s \<noteq> PlusInfinity"
  then show "\<exists>r. onResize_callback W iw ih s = Some r" by (rule onResize_returns)
next
  fix r assume mono: "\<forall>m n. m \<le> n \<longrightarrow> times W m \<le> times W n"
    and i: "init W iw ih (CircuitBoard opts) = Some (Inr r)"
  from init_invariant [OF stats_ok_tick [of "\<lambda>_. zero_fitness"] _ i] stats_ok_fresh [OF mono, of iw ih opts]
  show "stats_ok (fst r) (snd r)"
    by (simp add: setup_canvas_def CircuitBoard_def fitness_le_refl)
next
  fix r assume ok: "stats_ok s W" and d: "draw W s = Inr r"
  from draw_invariant [OF stats_ok_tick [of "strategyFitness s"] _ d] ok
  have "stats_ok (fst r) (snd r) \<and>
        (\<forall>strat. fitness_le (strategyFitness s strat) (strategyFitness (fst r) strat))"
    by (simp add: fitness_le_refl)
  then show "stats_ok (fst r) (snd r)"
    and "\<And>strat. fitness_le (strategyFitness s strat) (strategyFitness (fst r) strat)"
    by simp_all
qed (simp_all add: record_fitness_def)

theorem fitness_accumulates_witness:
  "stats_ok facing_cars still_world \<and>
   (\<exists>r. draw still_world facing_cars = Inr r \<and> stats_ok (fst r) (snd r) \<and>
      fitness_le (strategyFitness facing_cars Wanderer) (strategyFitness (fst r) Wanderer)) \<and>
   2 \<le> length (cars one_stuck) \<and>
   count_fit (strategyFitness (fst (phase4 2 still_world one_stuck)) Wanderer) = 1 \<and>
   count_fit (strategyFitness (fst (phase4 2 still_world one_stuck)) Spiral) = 0"
proof -
  note h = facing_cars_stats
  obtain r where r: "draw still_world facing_cars = Inr r"
    using draw_returns [OF facing_cars_dirs] by blast
  have len: "2 \<le> length (cars one_stuck)" by (simp add: one_stuck_def)
  have ret: "retiring Wanderer 2 one_stuck = [(wanderer_at 1 200 0 3)\<lparr>stuck := True\<rparr>]"
    "retiring Spiral 2 one_stuck = []"
    by (simp_all add: retiring_def one_stuck_def wanderer_at_def)
  have zero: "count_fit (strategyFitness one_stuck strat) = 0" for strat
    by (simp add: one_stuck_def facing_cars_def fresh_board_def setup_canvas_def
        CircuitBoard_def zero_fitness_def)
  from fitness_accumulates [of still_world 0 facing_cars 0 "wanderer_at 0 0 0 0" zero_fitness
      2 "[]" Map.empty 1000 "[]" 400 400 default_options]
    h r
  have a: "stats_ok (fst r) (snd r) \<and>
      fitness_le (strategyFitness facing_cars Wanderer) (strategyFitness (fst r) Wanderer)"
    by blast
  from fitness_accumulates [of still_world 0 one_stuck 0 "wanderer_at 0 0 0 0" zero_fitness
      2 "[]" Map.empty 1000 "[]" 400 400 default_options] len
  have b: "count_fit (strategyFitness (fst (phase4 2 still_world one_stuck)) Wanderer) = 1"
    and c: "count_fit (strategyFitness (fst (phase4 2 still_world one_stuck)) Spiral) = 0"
    by (simp_all add: ret zero)
  from h r a len b c show ?thesis by blast
qed

subsection \<open>Configuration\<close>




subsection \<open>Spawning and eviction\<close>

text \<open>
  C8, as the claim states it, fails: the grid points of the random search are not drawn
  uniformly. On the board of the default options, with a canvas of 1000 by 1000, the
  row is drawn from 11.547 row heights: of the 12 rows the first has the share 0.0866
  of the draws and the last 0.0474, and the draw 0.95, above eleven twelfths, gives the
  row 10 and the point \<open>(900, 866)\<close>.
\<close>

theorem random_points_not_uniform:
  "\<not> uniform_points fresh_board \<and>
   canvasHeight fresh_board / row_height (hexSize fresh_board) = 5000 / 433 \<and>
   share (5000 / 433) 0 = 433 / 5000 \<and>
   share (5000 / 433) 11 = 237 / 5000 \<and>
   fst (random_point late_world fresh_board) = (900, 866)"
  using fresh_board_not_uniform fresh_board_rows fresh_board_shares late_world_point
  by simp

text \<open>
  C8, amended. The random search tries up to 100 grid points: the \<open>k\<close>-th is the lattice
  point whose row and column are the floors of two draws times the canvas height in
  row heights and the canvas width in grid sizes. A draw \<open>r\<close> gives the index \<open>k\<close>
  exactly when it lies from \<open>k / q\<close> up to \<open>(k + 1) / q\<close>, so the choice is uniform when
  the two quotients are whole numbers. If the tried points all collide the scan takes
  the first lattice point, row by row and column by column, that is inside the canvas
  and free, and the scan is exhaustive: it contains every lattice point inside the
  canvas. \<open>spawnCar\<close> fails exactly when the tried points and the points of the scan
  inside the canvas are all taken, and then the board is unchanged; when it succeeds
  the car is placed on the first free tried point or, if there is none, on the point of
  the scan. A due spawn that succeeds is the whole spawn phase. In infinite-lifetime
  mode, when a due spawn fails and there are dead cars, the spawn phase removes the
  traces of a dead car with the least death time and calls \<open>spawnCar\<close> once more,
  whatever that call returns; otherwise a failed spawn only sets the spawn time.
  \<open>removeCarTraces\<close> removes every cell of that car from the three tables and no cell
  of another car, removes exactly that car's segments and takes it off the dead cars.
\<close>

theorem spawn_exhaustion_and_eviction:
  "(\<not> fst (spawnCar W s) \<longleftrightarrow>
      (\<forall>k<100. cell_taken (occupiedCells s) (tried_point (snd (selectStrategyByFitness W s)) s k)) \<and>
      (\<forall>p \<in> set (scan_points s). in_canvas s p \<longrightarrow> cell_taken (occupiedCells s) p)) \<and>
   (\<not> fst (spawnCar W s) \<longrightarrow> fst (snd (spawnCar W s)) = s) \<and>
   (fst (spawnCar W s) \<longrightarrow>
      (\<exists>p.
         (List.find (\<lambda>p. \<not> cell_taken (occupiedCells s) p)
            (map (tried_point (snd (selectStrategyByFitness W s)) s) [0..<100]) = Some p \<or>
          (\<forall>k<100. cell_taken (occupiedCells s) (tried_point (snd (selectStrategyByFitness W s)) s k)) \<and>
          List.find (\<lambda>p. in_canvas s p \<and> \<not> cell_taken (occupiedCells s) p) (scan_points s) = Some p) \<and>
         placed s (fst (selectStrategyByFitness W s)) p (fst (snd (spawnCar W s))))) \<and>
   (0 < hexSize s \<and> 0 \<le> row \<and> 0 \<le> col \<and> in_canvas s (lattice_point (hexSize s) row col) \<longrightarrow>
      lattice_point (hexSize s) row col \<in> set (scan_points s)) \<and>
   (0 < q \<longrightarrow> (\<lfloor>r * q\<rfloor> = k \<longleftrightarrow> real_of_int k / q \<le> r \<and> r < (real_of_int k + 1) / q)) \<and>
   (0 < n \<and> 0 < m \<and> canvasHeight s / row_height (hexSize s) = real n \<and>
    canvasWidth s / hexSize s = real m \<longrightarrow> uniform_points s) \<and>
   (lt (real (length (cars s))) (maxCars s) \<and> now - lastSpawnTime s \<ge> spawnDelay s \<and>
    fst (spawnCar W s) \<longrightarrow>
      spawn_phase now W s =
        (fst (snd (spawnCar W s))\<lparr>lastSpawnTime := now\<rparr>, snd (snd (spawnCar W s)))) \<and>
   (lt (real (length (cars s))) (maxCars s) \<and> now - lastSpawnTime s \<ge> spawnDelay s \<and>
    infiniteLifetime s \<and> \<not> fst (spawnCar W s) \<and> deadCarIds s \<noteq> [] \<longrightarrow>
      (\<exists>cid t. (cid, t) \<in> set (deadCarIds s) \<and> (\<forall>q \<in> set (deadCarIds s). t \<le> snd q) \<and>
         spawn_phase now W s =
           (fst (snd (spawnCar (snd (snd (spawnCar W s))) (removeCarTraces cid s)))
              \<lparr>lastSpawnTime := now\<rparr>,
            snd (snd (spawnCar (snd (snd (spawnCar W s))) (removeCarTraces cid s)))))) \<and>
   (lt (real (length (cars s))) (maxCars s) \<and> now - lastSpawnTime s \<ge> spawnDelay s \<and>
    \<not> fst (spawnCar W s) \<and> (\<not> infiniteLifetime s \<or> deadCarIds s = []) \<longrightarrow>
      fst (spawn_phase now W s) = s\<lparr>lastSpawnTime := now\<rparr>) \<and>
   (\<forall>k. map_of (cellOwners (removeCarTraces cid s)) k =
      (if map_of (cellOwners s) k = Some cid then None else map_of (cellOwners s) k)) \<and>
   (\<forall>k. map_of (cellOwners s) k = Some cid \<longrightarrow>
      map_of (occupiedCells (removeCarTraces cid s)) k = None \<and>
      map_of (cellTimestamps (removeCarTraces cid s)) k = None) \<and>
   (\<forall>k. map_of (cellOwners s) k \<noteq> Some cid \<longrightarrow>
      map_of (occupiedCells (removeCarTraces cid s)) k = map_of (occupiedCells s) k) \<and>
   allLines (removeCarTraces cid s) = filter (\<lambda>l. carId l \<noteq> cid) (allLines s) \<and>
   map_of (deadCarIds (removeCarTraces cid s)) cid = None"
proof (intro conjI)
  show "\<not> fst (spawnCar W s) \<longleftrightarrow>
      (\<forall>k<100. cell_taken (occupiedCells s) (tried_point (snd (selectStrategyByFitness W s)) s k)) \<and>
      (\<forall>p \<in> set (scan_points s). in_canvas s p \<longrightarrow> cell_taken (occupiedCells s) p)"
    by (rule spawnCar_fails_spec)
  show "\<not> fst (spawnCar W s) \<longrightarrow> fst (snd (spawnCar W s)) = s"
    by (simp add: spawnCar_fails_unchanged)
  show "fst (spawnCar W s) \<longrightarrow>
      (\<exists>p.
         (List.find (\<lambda>p. \<not> cell_taken (occupiedCells s) p)
            (map (tried_point (snd (selectStrategyByFitness W s)) s) [0..<100]) = Some p \<or>
          (\<forall>k<100. cell_taken (occupiedCells s) (tried_point (snd (selectStrategyByFitness W s)) s k)) \<and>
          List.find (\<lambda>p. in_canvas s p \<and> \<not> cell_taken (occupiedCells s) p) (scan_points s) = Some p) \<and>
         placed s (fst (selectStrategyByFitness W s)) p (fst (snd (spawnCar W s))))"
    by (intro impI) (rule spawnCar_place_spec)
  show "0 < hexSize s \<and> 0 \<le> row \<and> 0 \<le> col \<and> in_canvas s (lattice_point (hexSize s) row col) \<longrightarrow>
      lattice_point (hexSize s) row col \<in> set (scan_points s)"
    by (intro impI; elim conjE; rule scan_exhaustive; assumption)
  show "0 < q \<longrightarrow> (\<lfloor>r * q\<rfloor> = k \<longleftrightarrow> real_of_int k / q \<le> r \<and> r < (real_of_int k + 1) / q)"
    by (intro impI) (rule floor_draw)
  show "0 < n \<and> 0 < m \<and> canvasHeight s / row_height (hexSize s) = real n \<and>
    canvasWidth s / hexSize s = real m \<longrightarrow> uniform_points s"
    by (intro impI; elim conjE; rule uniform_points_whole; assumption)
  show "lt (real (length (cars s))) (maxCars s) \<and> now - lastSpawnTime s \<ge> spawnDelay s \<and>
    fst (spawnCar W s) \<longrightarrow>
      spawn_phase now W s =
        (fst (snd (spawnCar W s))\<lparr>lastSpawnTime := now\<rparr>, snd (snd (spawnCar W s)))"
    by (intro impI; elim conjE; rule spawn_phase_success; assumption)
  show "lt (real (length (cars s))) (maxCars s) \<and> now - lastSpawnTime s \<ge> spawnDelay s \<and>
    infiniteLifetime s \<and> \<not> fst (spawnCar W s) \<and> deadCarIds s \<noteq> [] \<longrightarrow>
      (\<exists>cid t. (cid, t) \<in> set (deadCarIds s) \<and> (\<forall>q \<in> set (deadCarIds s). t \<le> snd q) \<and>
         spawn_phase now W s =
           (fst (snd (spawnCar (snd (snd (spawnCar W s))) (removeCarTraces cid s)))
              \<lparr>lastSpawnTime := now\<rparr>,
            snd (snd (spawnCar (snd (snd (spawnCar W s))) (removeCarTraces cid s)))))"
    by (intro impI; elim conjE; rule spawn_phase_evicts; assumption)
  show "lt (real (length (cars s))) (maxCars s) \<and> now - lastSpawnTime s \<ge> spawnDelay s \<and>
    \<not> fst (spawnCar W s) \<and> (\<not> infiniteLifetime s \<or> deadCarIds s = []) \<longrightarrow>
      fst (spawn_phase now W s) = s\<lparr>lastSpawnTime := now\<rparr>"
    by (intro impI; elim conjE; rule spawn_phase_no_eviction; assumption)
  show "\<forall>k. map_of (cellOwners (removeCarTraces cid s)) k =
      (if map_of (cellOwners s) k = Some cid then None else map_of (cellOwners s) k)"
    by (simp add: removeCarTraces_owner)
  show "\<forall>k. map_of (cellOwners s) k = Some cid \<longrightarrow>
      map_of (occupiedCells (removeCarTraces cid s)) k = None \<and>
      map_of (cellTimestamps (removeCarTraces cid s)) k = None"
    by (simp add: removeCarTraces_clears)
  show "\<forall>k. map_of (cellOwners s) k \<noteq> Some cid \<longrightarrow>
      map_of (occupiedCells (removeCarTraces cid s)) k = map_of (occupiedCells s) k"
    by (simp add: removeCarTraces_keeps)
  show "allLines (removeCarTraces cid s) = filter (\<lambda>l. carId l \<noteq> cid) (allLines s)"
    by (simp add: removeCarTraces_def Let_def)
  show "map_of (deadCarIds (removeCarTraces cid s)) cid = None"
    by (simp add: removeCarTraces_dead)
qed

theorem spawn_exhaustion_and_eviction_witness:
  "\<not> fst (spawnCar still_world full_board) \<and>
   fst (snd (spawnCar still_world full_board)) = full_board \<and>
   infiniteLifetime full_board \<and> deadCarIds full_board = [(0, 500)] \<and>
   spawn_phase 1000 still_world full_board =
     (fst (snd (spawnCar (snd (snd (spawnCar still_world full_board))) (removeCarTraces 0 full_board)))
        \<lparr>lastSpawnTime := 1000\<rparr>,
      snd (snd (spawnCar (snd (snd (spawnCar still_world full_board))) (removeCarTraces 0 full_board)))) \<and>
   map_of (cellOwners full_board) (0, 0) = Some 0 \<and>
   map_of (occupiedCells (removeCarTraces 0 full_board)) (0, 0) = None \<and>
   fst (spawnCar (snd (snd (spawnCar still_world full_board))) (removeCarTraces 0 full_board))"
proof -
  let ?W' = "snd (snd (spawnCar still_world full_board))"
  note t = spawn_exhaustion_and_eviction [where W = still_world and s = full_board
      and now = 1000 and cid = 0]
  note fails_iff = t [THEN conjunct1]
  note unchanged = t [THEN conjunct2, THEN conjunct1]
  note evicts = t [THEN conjunct2, THEN conjunct2, THEN conjunct2, THEN conjunct2,
      THEN conjunct2, THEN conjunct2, THEN conjunct2, THEN conjunct1]
  note clears = t [THEN conjunct2, THEN conjunct2, THEN conjunct2, THEN conjunct2,
      THEN conjunct2, THEN conjunct2, THEN conjunct2, THEN conjunct2, THEN conjunct2,
      THEN conjunct2, THEN conjunct1]
  note retry_iff = spawn_exhaustion_and_eviction [where W = ?W'
      and s = "removeCarTraces 0 full_board", THEN conjunct1]
  have all: "\<forall>k<100. cell_taken (occupiedCells full_board)
      (tried_point (snd (selectStrategyByFitness still_world full_board)) full_board k)"
    by (simp add: full_board_select full_board_tried full_board_cell_taken)
  have scan: "\<forall>p \<in> set (scan_points full_board). in_canvas full_board p \<longrightarrow>
      cell_taken (occupiedCells full_board) p"
    by (simp add: full_board_scan_points full_board_cell_taken)
  from all scan have fail: "\<not> fst (spawnCar still_world full_board)"
    by (simp only: fails_iff simp_thms)
  from unchanged fail have same: "fst (snd (spawnCar still_world full_board)) = full_board"
    by (rule mp)
  have inf: "infiniteLifetime full_board" and dead: "deadCarIds full_board = [(0, 500)]"
    and own: "map_of (cellOwners full_board) (0, 0) = Some 0"
    and due: "lt (real (length (cars full_board))) (maxCars full_board)"
      "1000 - lastSpawnTime full_board \<ge> spawnDelay full_board"
    by (simp_all add: full_board_fields lt_def)
  from dead have ne: "deadCarIds full_board \<noteq> []" by simp
  from due inf fail ne have "lt (real (length (cars full_board))) (maxCars full_board) \<and>
      1000 - lastSpawnTime full_board \<ge> spawnDelay full_board \<and>
      infiniteLifetime full_board \<and> \<not> fst (spawnCar still_world full_board) \<and>
      deadCarIds full_board \<noteq> []"
    by (intro conjI)
  from evicts [THEN mp, OF this] obtain cid tm where mem: "(cid, tm) \<in> set (deadCarIds full_board)"
    and sp: "spawn_phase 1000 still_world full_board =
      (fst (snd (spawnCar ?W' (removeCarTraces cid full_board)))\<lparr>lastSpawnTime := 1000\<rparr>,
       snd (snd (spawnCar ?W' (removeCarTraces cid full_board))))"
    by (elim exE conjE)
  from mem dead have "cid = 0" by simp
  with sp have sp0: "spawn_phase 1000 still_world full_board =
      (fst (snd (spawnCar ?W' (removeCarTraces 0 full_board)))\<lparr>lastSpawnTime := 1000\<rparr>,
       snd (snd (spawnCar ?W' (removeCarTraces 0 full_board))))"
    by simp
  from clears [THEN spec, THEN mp, OF own]
  have free: "map_of (occupiedCells (removeCarTraces 0 full_board)) (0, 0) = None"
    by (rule conjunct1)
  have nt: "\<not> cell_taken (occupiedCells (removeCarTraces 0 full_board)) (0, 0)"
    by (rule not_taken) (simp add: free getHexKey_def Math_round_def)
  have inside: "in_canvas full_board (0, 0)"
    by (simp add: in_canvas_def full_board_fields)
  have mem0: "(0, 0) \<in> set (scan_points (removeCarTraces 0 full_board))"
    by (simp add: removeCarTraces_canvas full_board_scan_points)
  have inside': "in_canvas (removeCarTraces 0 full_board) (0, 0)"
    by (simp only: removeCarTraces_canvas inside)
  from mem0 inside' nt have "\<not> (\<forall>p \<in> set (scan_points (removeCarTraces 0 full_board)).
      in_canvas (removeCarTraces 0 full_board) p \<longrightarrow>
      cell_taken (occupiedCells (removeCarTraces 0 full_board)) p)"
    by blast
  then have again: "fst (spawnCar ?W' (removeCarTraces 0 full_board))"
    using retry_iff by blast
  from fail same inf dead sp0 own free again show ?thesis by (intro conjI)
qed

subsection \<open>Move legality\<close>

text \<open>
  C3, as the claim states it, fails: a segment that is nearly parallel to the step does
  not stop it. The car at \<open>(0, 0)\<close> steps East to \<open>(100, 0)\<close>; the segment from
  \<open>(20, -0.00000025)\<close> to \<open>(80, 0.00000025)\<close> shares no endpoint with the step and
  intersects it in \<open>(50, 0)\<close>, at the parameter one half on both, so the move is not
  legal as the claim states it, but \<open>tryDirection\<close> returns the move: the cross product
  of the two directions is 0.00005.
\<close>

theorem nearly_parallel_segment_is_crossed:
  "\<not> legal_as_claimed (wanderer_at 0 0 0 0) 0 [((0, 0), 1), ((200, 0), 1)] 1000 1000
       [segment_of 1 20 (- (1 / 4000000)) 80 (1 / 4000000)] \<and>
   segments_intersect 100 0 0 100 0 20 (- (1 / 4000000)) 80 (1 / 4000000) \<and>
   tryDirection (wanderer_at 0 0 0 0) 0 [((0, 0), 1), ((200, 0), 1)] 1000 1000
       [segment_of 1 20 (- (1 / 4000000)) 80 (1 / 4000000)] =
     Inr (Some \<lparr>mv_x = 100, mv_y = 0, direction = 0\<rparr>)"
  using flat_segment_illegal_as_claimed flat_segment_intersects
  by (simp add: east_try flat_segment_passes)

text \<open>
  C3, amended. Move legality. For a car whose grid size is not zero and a direction
  among the six, \<open>tryDirection\<close> returns a move exactly when the move is legal, and the
  move is then the step to the destination: the destination is inside the canvas, its
  cell is not taken, neither of the points at one third and two thirds of the step
  snaps, within 60 percent of the grid size, to a taken cell other than the car's own,
  and the step crosses none of the last 100 recorded segments. Two segments cross when
  they share no endpoint within 15 percent of the grid size, the cross product of their
  directions is at least 0.0001 in absolute value, and they meet at interpolation
  parameters strictly between 0.05 and 0.95 on both. Numbers are read as reals.
\<close>

theorem move_legality:
  assumes "0 \<le> d" and "d < 6" and "car_hexSize c \<noteq> 0"
  shows "((\<exists>mv. tryDirection c d cells cw ch lines = Inr (Some mv)) \<longleftrightarrow>
            legal_move c d cells cw ch lines) \<and>
         tryDirection c d cells cw ch lines =
           Inr (if legal_move c d cells cw ch lines
                then Some \<lparr>mv_x = fst (destination c d), mv_y = snd (destination c d), direction = d\<rparr>
                else None)"
  using tryDirection_legal [OF assms(1,2), of c cells cw ch lines] by simp

theorem move_legality_witness:
  "legal_move (wanderer_at 0 0 0 0) 0 (occupiedCells facing_cars) 1000 1000
     [segment_of 1 300 0 200 0] \<and>
   tryDirection (wanderer_at 0 0 0 0) 0 (occupiedCells facing_cars) 1000 1000
     [segment_of 1 300 0 200 0] = Inr (Some \<lparr>mv_x = 100, mv_y = 0, direction = 0\<rparr>) \<and>
   \<not> legal_move (wanderer_at 0 0 0 0) 0 (occupiedCells facing_cars) 1000 1000
     [segment_of 1 50 (- 50) 50 50] \<and>
   tryDirection (wanderer_at 0 0 0 0) 0 (occupiedCells facing_cars) 1000 1000
     [segment_of 1 50 (- 50) 50 50] = Inr None"
proof -
  have hs: "car_hexSize (wanderer_at 0 0 0 0) \<noteq> 0" by (simp add: wanderer_at_def)
  have a: "tryDirection (wanderer_at 0 0 0 0) 0 (occupiedCells facing_cars) 1000 1000
     [segment_of 1 300 0 200 0] = Inr (Some \<lparr>mv_x = 100, mv_y = 0, direction = 0\<rparr>)"
    by (simp add: facing_cells east_try far_segment_parallel)
  have b: "tryDirection (wanderer_at 0 0 0 0) 0 (occupiedCells facing_cars) 1000 1000
     [segment_of 1 50 (- 50) 50 50] = Inr None"
    by (simp add: facing_cells east_try upright_segment_crosses)
  from move_legality [of 0 "wanderer_at 0 0 0 0" "occupiedCells facing_cars" 1000 1000
      "[segment_of 1 300 0 200 0]", THEN conjunct1] hs a
  have yes: "legal_move (wanderer_at 0 0 0 0) 0 (occupiedCells facing_cars) 1000 1000
     [segment_of 1 300 0 200 0]"
    by simp
  from move_legality [of 0 "wanderer_at 0 0 0 0" "occupiedCells facing_cars" 1000 1000
      "[segment_of 1 50 (- 50) 50 50]", THEN conjunct1] hs b
  have no: "\<not> legal_move (wanderer_at 0 0 0 0) 0 (occupiedCells facing_cars) 1000 1000
     [segment_of 1 50 (- 50) 50 50]"
    by simp
  from yes a no b show ?thesis by (intro conjI)
qed

end
